theory Spec2Isabelle
  imports Main
begin

section \<open>The parallel stage of the pipeline (parallel.go)\<close>

subsection \<open>Items, tasks and the stage\<close>

text \<open>
  Modelled from the spec: \<open>Data\<close> is an interface declared outside parallel.go. An item is
  an object with an identity; \<open>Clone()\<close> returns a new, independent object. \<open>Clone x k\<close> is the
  copy that the \<open>k\<close>-th call of \<open>x.Clone()\<close> inside one fan-out returns, so a clone is never
  the item it was cloned from, and two clones of one fan-out are different objects.
\<close>

datatype Data = Item nat | Clone Data nat

text \<open>
  Modelled from the spec: \<open>Task\<close> is an interface declared outside parallel.go.
  \<open>Process(ctx, clone, tp)\<close> returns \<open>(d, err)\<close>; either may be nil, and the code tests them
  independently. The first argument says whether \<open>ctx\<close> is already cancelled at the call.
  What a task itself sends through its \<open>taskParams\<close> is not part of this file.
\<close>

type_synonym Task = "bool \<Rightarrow> Data \<Rightarrow> Data option \<times> string option"

record parallel =
  id_p :: string
  tasks :: "Task list"

text \<open>Of \<open>StageParams\<close> only \<open>Position()\<close> is a value; its channels are the state below.\<close>

record StageParams =
  Position :: int

definition Parallel :: "string \<Rightarrow> Task list \<Rightarrow> parallel option" where
  "Parallel ident ts =
     (if length ts = 0 then None else Some \<lparr>id_p = ident, tasks = ts\<rparr>)"

definition ID :: "parallel \<Rightarrow> string" where
  "ID p = id_p p"

subsection \<open>The error text: \<open>fmt.Errorf("pipeline stage %d: %v", sp.Position(), err)\<close>\<close>

text \<open>\<open>%d\<close> prints an integer in decimal; \<open>digit\<close> is only applied to numbers below ten.\<close>

definition digit :: "nat \<Rightarrow> char" where
  "digit n = ''0123456789'' ! n"

function decimal :: "nat \<Rightarrow> string" where
  "decimal n = (if n < 10 then [digit n] else decimal (n div 10) @ [digit (n mod 10)])"
  by pat_completeness auto
termination
  by (relation "measure (\<lambda>n. n)") auto

declare decimal.simps [simp del]

definition fmt_d :: "int \<Rightarrow> string" where
  "fmt_d i = (if i < 0 then ''-'' @ decimal (nat (- i)) else decimal (nat i))"

definition Errorf :: "int \<Rightarrow> string \<Rightarrow> string" where
  "Errorf position e = ''pipeline stage '' @ fmt_d position @ '': '' @ e"

text \<open>
  Reading an entry of the error sink back: the number between \<open>pipeline stage\<close> and the
  first colon, read as a decimal with an optional sign, and the text after that colon and
  the blank that follows it.
\<close>

definition digit_val :: "char \<Rightarrow> nat" where
  "digit_val c = length (takeWhile (\<lambda>d. d \<noteq> c) ''0123456789'')"

definition read_nat :: "string \<Rightarrow> nat" where
  "read_nat cs = foldl (\<lambda>a c. 10 * a + digit_val c) 0 cs"

definition read_d :: "string \<Rightarrow> int" where
  "read_d cs =
     (case cs of
        [] \<Rightarrow> 0
      | c # r \<Rightarrow> if c = CHR ''-'' then - int (read_nat r) else int (read_nat cs))"

definition position_of :: "string \<Rightarrow> int" where
  "position_of e = read_d (takeWhile (\<lambda>c. c \<noteq> CHR '':'') (drop 15 e))"

definition cause_of :: "string \<Rightarrow> string" where
  "cause_of e = drop 2 (dropWhile (\<lambda>c. c \<noteq> CHR '':'') (drop 15 e))"

subsection \<open>One call of \<open>executeTask\<close>: the executor, its runners and the channels\<close>

text \<open>
  Every channel operation, every \<open>MarkAsProcessed()\<close> and every append to the error sink is
  recorded in one trace, tagged with the goroutine that did it: the executor, or the runner
  started for task \<open>idx\<close>.
\<close>

datatype actor = Executor | Runner nat

datatype event =
    NewData Data
  | ProcessedData Data
  | MarkAsProcessed Data
  | ErrorAppend string
  | DoneSend "Data option"
  | DoneRecv "Data option"
  | Output Data

text \<open>Where a runner stands: before line 73, 78, 79, 80, or after its last statement.\<close>

datatype rloc = AtProcess | AtPublish | AtMark | AtSend | Exited

record runner =
  idx :: nat
  clone :: Data
  loc :: rloc
  ret :: "Data option"
  err :: "string option"

text \<open>
  Where the executor stands: at the select of line 60 in iteration \<open>i\<close>, at the receive of
  line 86 in iteration \<open>i\<close>, at line 91, at line 92, at the select of line 96, or returned.
\<close>

datatype outcome = Abandoned | Dropped | Forwarded | ForwardAbandoned

datatype epc = Dispatch nat | Join nat | PublishOrig | MarkOrig | Forward | Returned outcome

record state =
  ctx_done :: bool
  data :: Data
  pc :: epc
  failed :: bool
  done_cap :: nat
  done_buf :: "Data option list"
  runners :: "runner list"
  trace :: "(actor \<times> event) list"

text \<open>The loop tests of lines 85 and 57, and the test of line 90.\<close>

definition join_at :: "parallel \<Rightarrow> nat \<Rightarrow> bool \<Rightarrow> epc" where
  "join_at p i f =
     (if i < length (tasks p) then Join i else if f then PublishOrig else Forward)"

definition dispatch_at :: "parallel \<Rightarrow> nat \<Rightarrow> epc" where
  "dispatch_at p i = (if i < length (tasks p) then Dispatch i else join_at p 0 False)"

text \<open>Entering \<open>executeTask(ctx, data, sp)\<close>: line 55 allocates \<open>done\<close> with capacity \<open>len(p.tasks)\<close>.\<close>

definition executeTask :: "parallel \<Rightarrow> bool \<Rightarrow> Data \<Rightarrow> state" where
  "executeTask p c x =
     \<lparr>ctx_done = c, data = x, pc = dispatch_at p 0, failed = False,
      done_cap = length (tasks p), done_buf = [], runners = [], trace = []\<rparr>"

text \<open>
  The executor's next statement, a select taking its send branch. A send on a channel of the
  stage is a step that the receiver's side makes possible; a receive from \<open>done\<close> needs a
  buffered value. The \<open>go\<close> statement of line 66 belongs to the step of line 63.
\<close>

definition exec_step :: "parallel \<Rightarrow> state \<Rightarrow> state option" where
  "exec_step p s =
     (case pc s of
        Dispatch i \<Rightarrow>
          Some (s\<lparr>pc := dispatch_at p (Suc i),
                  runners := runners s @
                    [\<lparr>idx = i, clone = Clone (data s) i, loc = AtProcess, ret = None, err = None\<rparr>],
                  trace := trace s @ [(Executor, NewData (Clone (data s) i))]\<rparr>)
      | Join i \<Rightarrow>
          (case done_buf s of
             [] \<Rightarrow> None
           | v # rest \<Rightarrow>
               Some (s\<lparr>pc := join_at p (Suc i) (failed s \<or> v = None),
                       failed := (failed s \<or> v = None),
                       done_buf := rest,
                       trace := trace s @ [(Executor, DoneRecv v)]\<rparr>))
      | PublishOrig \<Rightarrow>
          Some (s\<lparr>pc := MarkOrig, trace := trace s @ [(Executor, ProcessedData (data s))]\<rparr>)
      | MarkOrig \<Rightarrow>
          Some (s\<lparr>pc := Returned Dropped,
                  trace := trace s @ [(Executor, MarkAsProcessed (data s))]\<rparr>)
      | Forward \<Rightarrow>
          Some (s\<lparr>pc := Returned Forwarded, trace := trace s @ [(Executor, Output (data s))]\<rparr>)
      | Returned r \<Rightarrow> None)"

text \<open>A select taking \<open>case <-ctx.Done()\<close>: line 61 returns, line 97 falls out of the function.\<close>

definition exec_done :: "state \<Rightarrow> state option" where
  "exec_done s =
     (if ctx_done s then
        (case pc s of
           Dispatch i \<Rightarrow> Some (s\<lparr>pc := Returned Abandoned\<rparr>)
         | Forward \<Rightarrow> Some (s\<lparr>pc := Returned ForwardAbandoned\<rparr>)
         | _ \<Rightarrow> None)
      else None)"

text \<open>
  The next statement of the goroutine at place \<open>k\<close> of the pool (lines 66 to 81). Indexing
  \<open>p.tasks\<close> out of range panics, which is no step here (it never happens: a runner that
  has not exited can always make a step, see C4); the send of line 80 needs room in \<open>done\<close>.
  The call of \<open>Process\<close> and the append of its error are one step.
\<close>

definition runner_step :: "parallel \<Rightarrow> StageParams \<Rightarrow> nat \<Rightarrow> state \<Rightarrow> state option" where
  "runner_step p sp k s =
     (if k < length (runners s) then
        (case loc (runners s ! k) of
           AtProcess \<Rightarrow>
             (if idx (runners s ! k) < length (tasks p) then
                (case (tasks p ! idx (runners s ! k)) (ctx_done s) (clone (runners s ! k)) of
                   (d, e) \<Rightarrow>
                     Some (s\<lparr>runners := (runners s)
                                [k := (runners s ! k)\<lparr>loc := AtPublish, ret := d, err := e\<rparr>],
                             trace := trace s @
                               (case e of
                                  None \<Rightarrow> []
                                | Some m \<Rightarrow>
                                    [(Runner (idx (runners s ! k)),
                                      ErrorAppend (Errorf (Position sp) m))])\<rparr>))
              else None)
         | AtPublish \<Rightarrow>
             Some (s\<lparr>runners := (runners s)[k := (runners s ! k)\<lparr>loc := AtMark\<rparr>],
                     trace := trace s @
                       [(Runner (idx (runners s ! k)), ProcessedData (clone (runners s ! k)))]\<rparr>)
         | AtMark \<Rightarrow>
             Some (s\<lparr>runners := (runners s)[k := (runners s ! k)\<lparr>loc := AtSend\<rparr>],
                     trace := trace s @
                       [(Runner (idx (runners s ! k)), MarkAsProcessed (clone (runners s ! k)))]\<rparr>)
         | AtSend \<Rightarrow>
             (if length (done_buf s) < done_cap s then
                Some (s\<lparr>runners := (runners s)[k := (runners s ! k)\<lparr>loc := Exited\<rparr>],
                        done_buf := done_buf s @ [ret (runners s ! k)],
                        trace := trace s @
                          [(Runner (idx (runners s ! k)), DoneSend (ret (runners s ! k)))]\<rparr>)
              else None)
         | Exited \<Rightarrow> None)
      else None)"

text \<open>
  A schedule is a list of actions: the context is cancelled, the executor makes its next
  step, the executor's select takes the cancellation branch, or a runner makes its next step.
  An action that is not possible in a state gives \<open>None\<close>.
\<close>

datatype action = Cancel | Exec | ExecDone | Goroutine nat

definition step :: "parallel \<Rightarrow> StageParams \<Rightarrow> action \<Rightarrow> state \<Rightarrow> state option" where
  "step p sp a s =
     (case a of
        Cancel \<Rightarrow> Some (s\<lparr>ctx_done := True\<rparr>)
      | Exec \<Rightarrow> exec_step p s
      | ExecDone \<Rightarrow> exec_done s
      | Goroutine k \<Rightarrow> runner_step p sp k s)"

fun run :: "parallel \<Rightarrow> StageParams \<Rightarrow> action list \<Rightarrow> state \<Rightarrow> state option" where
  "run p sp [] s = Some s"
| "run p sp (a # as) s = (case step p sp a s of None \<Rightarrow> None | Some s' \<Rightarrow> run p sp as s')"

subsection \<open>What an observer of the channels sees\<close>

text \<open>The part of a trace that one goroutine produced.\<close>

definition by_actor :: "actor \<Rightarrow> (actor \<times> event) list \<Rightarrow> (actor \<times> event) list" where
  "by_actor a t = filter (\<lambda>x. fst x = a) t"

fun recv_val :: "event \<Rightarrow> Data option list" where
  "recv_val (DoneRecv v) = [v]"
| "recv_val _ = []"

fun send_val :: "event \<Rightarrow> Data option list" where
  "send_val (DoneSend v) = [v]"
| "send_val _ = []"

fun output_val :: "event \<Rightarrow> Data list" where
  "output_val (Output x) = [x]"
| "output_val _ = []"

fun processed_val :: "event \<Rightarrow> Data list" where
  "processed_val (ProcessedData x) = [x]"
| "processed_val _ = []"

fun newdata_val :: "event \<Rightarrow> Data list" where
  "newdata_val (NewData x) = [x]"
| "newdata_val _ = []"

fun marked_val :: "event \<Rightarrow> Data list" where
  "marked_val (MarkAsProcessed x) = [x]"
| "marked_val _ = []"

fun error_val :: "event \<Rightarrow> string list" where
  "error_val (ErrorAppend m) = [m]"
| "error_val _ = []"

text \<open>The values the executor received from \<open>done\<close>, and those the runners sent on it.\<close>

definition received :: "(actor \<times> event) list \<Rightarrow> Data option list" where
  "received t = concat (map (\<lambda>x. recv_val (snd x)) t)"

definition sent_done :: "(actor \<times> event) list \<Rightarrow> Data option list" where
  "sent_done t = concat (map (\<lambda>x. send_val (snd x)) t)"

text \<open>The items sent on \<open>sp.Output()\<close>, \<open>sp.ProcessedData()\<close> and \<open>sp.NewData()\<close>.\<close>

definition Output_ch :: "(actor \<times> event) list \<Rightarrow> Data list" where
  "Output_ch t = concat (map (\<lambda>x. output_val (snd x)) t)"

definition ProcessedData_ch :: "(actor \<times> event) list \<Rightarrow> Data list" where
  "ProcessedData_ch t = concat (map (\<lambda>x. processed_val (snd x)) t)"

definition NewData_ch :: "(actor \<times> event) list \<Rightarrow> Data list" where
  "NewData_ch t = concat (map (\<lambda>x. newdata_val (snd x)) t)"

text \<open>The items \<open>MarkAsProcessed()\<close> was called on, one entry per call, and the error sink.\<close>

definition marked :: "(actor \<times> event) list \<Rightarrow> Data list" where
  "marked t = concat (map (\<lambda>x. marked_val (snd x)) t)"

definition Error_sink :: "(actor \<times> event) list \<Rightarrow> string list" where
  "Error_sink t = concat (map (\<lambda>x. error_val (snd x)) t)"

subsection \<open>The stage's event loop: \<open>Run\<close>\<close>

text \<open>
  Modelled from the spec: the requeue queue (\<open>sp.DataQueue()\<close>) and the input channel are
  declared outside parallel.go. The queue holds values of any type, \<open>Next()\<close> pops the head
  or reports that there is none, and its signal may fire when the queue is empty. A closed
  input channel still delivers what it holds.
\<close>

datatype queue_elem = QData Data | QOther

text \<open>
  The loop shares \<open>ctx\<close> with every call of \<open>executeTask\<close> it has made. \<open>calls\<close> lists these
  calls, the last one being the current one: runners of an abandoned call go on running
  while the loop admits the next item.
\<close>

record loop =
  cancelled :: bool
  Input :: "Data list"
  Input_closed :: bool
  DataQueue :: "queue_elem list"
  calls :: "state list"
  stopped :: bool

fun returned :: "epc \<Rightarrow> bool" where
  "returned (Returned r) = True"
| "returned _ = False"

text \<open>\<open>Run\<close> is at its select (line 36) when it has not returned and no call is under way.\<close>

definition at_select :: "loop \<Rightarrow> bool" where
  "at_select l = (\<not> stopped l \<and> (calls l = [] \<or> returned (pc (last (calls l)))))"

text \<open>
  The context is cancelled, for the loop and all its calls at once; the select takes line 37,
  line 39 or line 44; or call \<open>k\<close> of \<open>executeTask\<close> (its executor or one of its runners)
  makes a step.
\<close>

datatype loop_action = CtxCancel | SelectDone | SelectInput | SelectSignal | Inner nat action

definition Run_step :: "parallel \<Rightarrow> StageParams \<Rightarrow> loop_action \<Rightarrow> loop \<Rightarrow> loop option" where
  "Run_step p sp a l =
     (case a of
        CtxCancel \<Rightarrow>
          Some (l\<lparr>cancelled := True, calls := map (\<lambda>c. c\<lparr>ctx_done := True\<rparr>) (calls l)\<rparr>)
      | SelectDone \<Rightarrow>
          (if at_select l \<and> cancelled l then Some (l\<lparr>stopped := True\<rparr>) else None)
      | SelectInput \<Rightarrow>
          (if at_select l then
             (case Input l of
                [] \<Rightarrow> (if Input_closed l then Some (l\<lparr>stopped := True\<rparr>) else None)
              | dataIn # rest \<Rightarrow>
                  Some (l\<lparr>Input := rest,
                          calls := calls l @ [executeTask p (cancelled l) dataIn]\<rparr>))
           else None)
      | SelectSignal \<Rightarrow>
          (if at_select l then
             (case DataQueue l of
                [] \<Rightarrow> Some l
              | QData d # rest \<Rightarrow>
                  Some (l\<lparr>DataQueue := rest,
                          calls := calls l @ [executeTask p (cancelled l) d]\<rparr>)
              | QOther # rest \<Rightarrow> Some (l\<lparr>DataQueue := rest\<rparr>))
           else None)
      | Inner k b \<Rightarrow>
          (if k < length (calls l) \<and> b \<noteq> Cancel then
             (case step p sp b (calls l ! k) of
                None \<Rightarrow> None
              | Some c \<Rightarrow> Some (l\<lparr>calls := (calls l)[k := c]\<rparr>))
           else None))"

fun Run :: "parallel \<Rightarrow> StageParams \<Rightarrow> loop_action list \<Rightarrow> loop \<Rightarrow> loop option" where
  "Run p sp [] l = Some l"
| "Run p sp (a # as) l = (case Run_step p sp a l of None \<Rightarrow> None | Some l' \<Rightarrow> Run p sp as l')"

text \<open>
  The actions that admit an item, and what two loops must share to be in the same situation
  apart from what their input channel and their requeue queue hold.
\<close>

fun admits :: "loop_action \<Rightarrow> bool" where
  "admits SelectInput = True"
| "admits SelectSignal = True"
| "admits _ = False"

definition loop_view :: "loop \<Rightarrow> state list \<times> bool \<times> bool" where
  "loop_view l = (calls l, cancelled l, stopped l)"

subsection \<open>Invariants of one call of \<open>executeTask\<close>\<close>

text \<open>
  How many values the executor has received from \<open>done\<close> at each place, where it is still
  dispatching, and which places lie on the failure path and on the success path.
\<close>

fun recv_count :: "nat \<Rightarrow> epc \<Rightarrow> nat" where
  "recv_count n (Dispatch i) = 0"
| "recv_count n (Join i) = i"
| "recv_count n (Returned Abandoned) = 0"
| "recv_count n _ = n"

fun dispatching :: "epc \<Rightarrow> bool" where
  "dispatching (Dispatch i) = True"
| "dispatching (Returned Abandoned) = True"
| "dispatching _ = False"

fun fail_path :: "epc \<Rightarrow> bool" where
  "fail_path PublishOrig = True"
| "fail_path MarkOrig = True"
| "fail_path (Returned Dropped) = True"
| "fail_path _ = False"

fun pass_path :: "epc \<Rightarrow> bool" where
  "pass_path Forward = True"
| "pass_path (Returned Forwarded) = True"
| "pass_path (Returned ForwardAbandoned) = True"
| "pass_path _ = False"

text \<open>
  The place of the executor fixes the number of runners started, the number of values
  received and the value of \<open>failed\<close>. \<open>done\<close> is a queue: what was sent on it is what was
  received followed by what it still holds, one value per runner that has exited.
\<close>

definition pc_ok :: "parallel \<Rightarrow> state \<Rightarrow> bool" where
  "pc_ok p s =
     (length (received (trace s)) = recv_count (length (tasks p)) (pc s) \<and>
      (if dispatching (pc s) then length (runners s) < length (tasks p)
       else length (runners s) = length (tasks p)) \<and>
      (\<forall>i. pc s = Dispatch i \<longrightarrow> length (runners s) = i) \<and>
      (\<forall>i. pc s = Join i \<longrightarrow> i < length (tasks p)) \<and>
      (fail_path (pc s) \<longrightarrow> failed s) \<and>
      (pass_path (pc s) \<longrightarrow> \<not> failed s))"

definition fan_inv :: "parallel \<Rightarrow> state \<Rightarrow> bool" where
  "fan_inv p s =
     (done_cap s = length (tasks p) \<and> pc_ok p s \<and>
      failed s = (None \<in> set (received (trace s))) \<and>
      (\<forall>k < length (runners s). idx (runners s ! k) = k \<and> clone (runners s ! k) = Clone (data s) k) \<and>
      sent_done (trace s) = received (trace s) @ done_buf s \<and>
      length (sent_done (trace s)) = length (filter (\<lambda>r. loc r = Exited) (runners s)))"

text \<open>
  What the runner of a task has done so far, as its place tells, and what the executor has
  done so far: each goroutine's part of the trace is exactly this.
\<close>

definition err_log :: "StageParams \<Rightarrow> string option \<Rightarrow> event list" where
  "err_log sp e = (case e of None \<Rightarrow> [] | Some m \<Rightarrow> [ErrorAppend (Errorf (Position sp) m)])"

fun log_at :: "StageParams \<Rightarrow> rloc \<Rightarrow> Data \<Rightarrow> Data option \<Rightarrow> string option \<Rightarrow> event list" where
  "log_at sp AtProcess c d e = []"
| "log_at sp AtPublish c d e = err_log sp e"
| "log_at sp AtMark c d e = err_log sp e @ [ProcessedData c]"
| "log_at sp AtSend c d e = err_log sp e @ [ProcessedData c, MarkAsProcessed c]"
| "log_at sp Exited c d e = err_log sp e @ [ProcessedData c, MarkAsProcessed c, DoneSend d]"

definition runner_log :: "StageParams \<Rightarrow> runner \<Rightarrow> event list" where
  "runner_log sp r = log_at sp (loc r) (clone r) (ret r) (err r)"

fun exec_tail :: "Data \<Rightarrow> epc \<Rightarrow> event list" where
  "exec_tail x MarkOrig = [ProcessedData x]"
| "exec_tail x (Returned Dropped) = [ProcessedData x, MarkAsProcessed x]"
| "exec_tail x (Returned Forwarded) = [Output x]"
| "exec_tail x _ = []"

definition exec_log :: "state \<Rightarrow> event list" where
  "exec_log s =
     map (\<lambda>k. NewData (Clone (data s) k)) [0..<length (runners s)] @
     map DoneRecv (received (trace s)) @ exec_tail (data s) (pc s)"

definition log_inv :: "StageParams \<Rightarrow> state \<Rightarrow> bool" where
  "log_inv sp s =
     ((\<forall>k. map snd (by_actor (Runner k) (trace s)) =
            (if k < length (runners s) then runner_log sp (runners s ! k) else [])) \<and>
      map snd (by_actor Executor (trace s)) = exec_log s)"

text \<open>
  What the channels hold, counted from the places of the executor and of the runners: a
  runner has published its clone, has marked it, or ran a task that returned an error.
\<close>

fun published :: "rloc \<Rightarrow> bool" where
  "published AtProcess = False"
| "published AtPublish = False"
| "published _ = True"

fun marked_own :: "rloc \<Rightarrow> bool" where
  "marked_own AtSend = True"
| "marked_own Exited = True"
| "marked_own _ = False"

definition failed_task :: "runner \<Rightarrow> bool" where
  "failed_task r = (loc r \<noteq> AtProcess \<and> err r \<noteq> None)"

definition orig_published :: "epc \<Rightarrow> nat" where
  "orig_published c = (if c = MarkOrig \<or> c = Returned Dropped then 1 else 0)"

definition orig_marked :: "epc \<Rightarrow> nat" where
  "orig_marked c = (if c = Returned Dropped then 1 else 0)"

definition chan_inv :: "state \<Rightarrow> bool" where
  "chan_inv s =
     (Output_ch (trace s) = (if pc s = Returned Forwarded then [data s] else []) \<and>
      count_list (ProcessedData_ch (trace s)) (data s) = orig_published (pc s) \<and>
      length (ProcessedData_ch (trace s)) =
        length (filter (\<lambda>r. published (loc r)) (runners s)) + orig_published (pc s) \<and>
      count_list (marked (trace s)) (data s) = orig_marked (pc s) \<and>
      length (marked (trace s)) =
        length (filter (\<lambda>r. marked_own (loc r)) (runners s)) + orig_marked (pc s) \<and>
      NewData_ch (trace s) = map (Clone (data s)) [0..<length (runners s)] \<and>
      length (Error_sink (trace s)) = length (filter failed_task (runners s)))"

text \<open>What a runner holds after line 73 is what its task returned for its clone.\<close>

definition result_inv :: "parallel \<Rightarrow> state \<Rightarrow> bool" where
  "result_inv p s =
     (\<forall>k < length (runners s). loc (runners s ! k) \<noteq> AtProcess \<longrightarrow>
        (\<exists>c. (tasks p ! k) c (Clone (data s) k) = (ret (runners s ! k), err (runners s ! k))))"

definition good :: "parallel \<Rightarrow> StageParams \<Rightarrow> state \<Rightarrow> bool" where
  "good p sp s = (fan_inv p s \<and> log_inv sp s \<and> chan_inv s \<and> result_inv p s)"

subsection \<open>Example inputs\<close>

definition succeed :: Task where
  "succeed c x = (Some x, None)"

definition boom :: Task where
  "boom c x = (None, Some ''boom'')"

definition sp2 :: StageParams where
  "sp2 = \<lparr>Position = 2\<rparr>"

definition par1 :: parallel where
  "par1 = \<lparr>id_p = ''one'', tasks = [succeed]\<rparr>"

definition par2 :: parallel where
  "par2 = \<lparr>id_p = ''two'', tasks = [succeed, boom]\<rparr>"

text \<open>Schedules of one fan-out, and the states they end in.\<close>

definition sched_forwarded :: "action list" where
  "sched_forwarded = [Exec, Goroutine 0, Goroutine 0, Goroutine 0, Goroutine 0, Exec, Exec]"

definition sched_forward_cancelled :: "action list" where
  "sched_forward_cancelled =
     [Exec, Goroutine 0, Goroutine 0, Goroutine 0, Goroutine 0, Exec, Cancel, ExecDone]"

definition run_forwarded :: state where
  "run_forwarded = the (run par1 sp2 sched_forwarded (executeTask par1 False (Item 0)))"

definition run_forward_cancelled :: state where
  "run_forward_cancelled =
     the (run par1 sp2 sched_forward_cancelled (executeTask par1 False (Item 0)))"

definition sched_dropped :: "action list" where
  "sched_dropped =
     [Exec, Exec,
      Goroutine 0, Goroutine 0, Goroutine 0, Goroutine 0,
      Goroutine (Suc 0), Goroutine (Suc 0), Goroutine (Suc 0), Goroutine (Suc 0),
      Exec, Exec, Exec, Exec]"

definition run_dropped :: state where
  "run_dropped = the (run par2 sp2 sched_dropped (executeTask par2 False (Item 0)))"

definition sched_joining :: "action list" where
  "sched_joining = [Exec, Exec, Goroutine 0, Goroutine 0, Goroutine 0]"

definition run_joining :: state where
  "run_joining = the (run par2 sp2 sched_joining (executeTask par2 False (Item 0)))"

definition sched_abandoned :: "action list" where
  "sched_abandoned = [Exec, Cancel]"

definition run_before_abandon :: state where
  "run_before_abandon = the (run par2 sp2 sched_abandoned (executeTask par2 False (Item 0)))"

definition run_abandoned :: state where
  "run_abandoned =
     the (run par2 sp2
       (sched_abandoned @ ExecDone # [Goroutine 0, Goroutine 0, Goroutine 0, Goroutine 0])
       (executeTask par2 False (Item 0)))"

definition sched_before_forward :: "action list" where
  "sched_before_forward =
     [Exec, Goroutine 0, Goroutine 0, Goroutine 0, Goroutine 0, Exec, Cancel]"

definition run_before_forward :: state where
  "run_before_forward =
     the (run par1 sp2 sched_before_forward (executeTask par1 False (Item 0)))"

definition loop_input :: loop where
  "loop_input =
     \<lparr>cancelled = False, Input = [Item 0], Input_closed = False, DataQueue = [QOther],
      calls = [], stopped = False\<rparr>"

definition loop_requeue :: loop where
  "loop_requeue =
     \<lparr>cancelled = False, Input = [], Input_closed = False, DataQueue = [QData (Item 0)],
      calls = [], stopped = False\<rparr>"

definition sched_dispatched :: "action list" where
  "sched_dispatched = [Exec, Exec]"

definition run_dispatched :: state where
  "run_dispatched = the (run par2 sp2 sched_dispatched (executeTask par2 False (Item 0)))"

definition sched_join_cancelled :: "action list" where
  "sched_join_cancelled =
     [Exec, Exec,
      Goroutine 0, Goroutine 0, Goroutine 0, Goroutine 0,
      Goroutine (Suc 0), Goroutine (Suc 0), Goroutine (Suc 0), Goroutine (Suc 0),
      Cancel]"

definition run_join_cancelled :: state where
  "run_join_cancelled =
     the (run par2 sp2 sched_join_cancelled (executeTask par2 False (Item 0)))"

section \<open>Lemmas\<close>

lemma obs_Nil [simp]:
  "received [] = []" "sent_done [] = []" "Output_ch [] = []" "ProcessedData_ch [] = []"
  "NewData_ch [] = []" "marked [] = []" "Error_sink [] = []"
  by (simp_all add: received_def sent_done_def Output_ch_def ProcessedData_ch_def NewData_ch_def
      marked_def Error_sink_def)

lemma obs_append [simp]:
  "received (t @ u) = received t @ received u"
  "sent_done (t @ u) = sent_done t @ sent_done u"
  "Output_ch (t @ u) = Output_ch t @ Output_ch u"
  "ProcessedData_ch (t @ u) = ProcessedData_ch t @ ProcessedData_ch u"
  "NewData_ch (t @ u) = NewData_ch t @ NewData_ch u"
  "marked (t @ u) = marked t @ marked u"
  "Error_sink (t @ u) = Error_sink t @ Error_sink u"
  by (simp_all add: received_def sent_done_def Output_ch_def ProcessedData_ch_def NewData_ch_def
      marked_def Error_sink_def)

lemma obs_single [simp]:
  "received [(a, e)] = recv_val e"
  "sent_done [(a, e)] = send_val e"
  "Output_ch [(a, e)] = output_val e"
  "ProcessedData_ch [(a, e)] = processed_val e"
  "NewData_ch [(a, e)] = newdata_val e"
  "marked [(a, e)] = marked_val e"
  "Error_sink [(a, e)] = error_val e"
  by (simp_all add: received_def sent_done_def Output_ch_def ProcessedData_ch_def NewData_ch_def
      marked_def Error_sink_def)

lemma by_actor_append [simp]: "by_actor a (t @ u) = by_actor a t @ by_actor a u"
  by (simp add: by_actor_def)

lemma by_actor_single [simp]: "by_actor a [(b, e)] = (if b = a then [(b, e)] else [])"
  by (simp add: by_actor_def)

lemma by_actor_Nil [simp]: "by_actor a [] = []"
  by (simp add: by_actor_def)

lemma Clone_neq [simp]: "Clone x k \<noteq> x"
  by (induction x) auto

lemma run_append:
  "run p sp (as @ bs) s = (case run p sp as s of None \<Rightarrow> None | Some s' \<Rightarrow> run p sp bs s')"
  by (induction as arbitrary: s) (auto split: option.splits)

lemma length_filter_update:
  "k < length xs \<Longrightarrow>
   length (filter P (xs[k := x])) + (if P (xs ! k) then 1 else 0) =
   length (filter P xs) + (if P x then 1 else 0)"
proof (induction xs arbitrary: k)
  case Nil
  then show ?case by simp
next
  case (Cons a xs)
  then show ?case by (cases k) auto
qed

lemma exec_step_cases [consumes 1, case_names Dispatch Join PublishOrig MarkOrig Forward]:
  assumes "exec_step p s = Some s'"
  obtains
    (Dispatch) i where "pc s = Dispatch i"
      "s' = s\<lparr>pc := dispatch_at p (Suc i),
              runners := runners s @
                [\<lparr>idx = i, clone = Clone (data s) i, loc = AtProcess, ret = None, err = None\<rparr>],
              trace := trace s @ [(Executor, NewData (Clone (data s) i))]\<rparr>"
  | (Join) i v rest where "pc s = Join i" "done_buf s = v # rest"
      "s' = s\<lparr>pc := join_at p (Suc i) (failed s \<or> v = None),
              failed := (failed s \<or> v = None),
              done_buf := rest,
              trace := trace s @ [(Executor, DoneRecv v)]\<rparr>"
  | (PublishOrig) "pc s = PublishOrig"
      "s' = s\<lparr>pc := MarkOrig, trace := trace s @ [(Executor, ProcessedData (data s))]\<rparr>"
  | (MarkOrig) "pc s = MarkOrig"
      "s' = s\<lparr>pc := Returned Dropped, trace := trace s @ [(Executor, MarkAsProcessed (data s))]\<rparr>"
  | (Forward) "pc s = Forward"
      "s' = s\<lparr>pc := Returned Forwarded, trace := trace s @ [(Executor, Output (data s))]\<rparr>"
proof (cases "pc s")
  case (Dispatch i)
  with assms that(1) show ?thesis by (simp add: exec_step_def)
next
  case (Join i)
  with assms that(2) show ?thesis by (cases "done_buf s") (simp_all add: exec_step_def)
next
  case PublishOrig
  with assms that(3) show ?thesis by (simp add: exec_step_def)
next
  case MarkOrig
  with assms that(4) show ?thesis by (simp add: exec_step_def)
next
  case Forward
  with assms that(5) show ?thesis by (simp add: exec_step_def)
next
  case (Returned r)
  with assms show ?thesis by (simp add: exec_step_def)
qed

lemma exec_done_cases [consumes 1, case_names AbortDispatch AbortForward]:
  assumes "exec_done s = Some s'"
  obtains
    (AbortDispatch) i where "ctx_done s" "pc s = Dispatch i" "s' = s\<lparr>pc := Returned Abandoned\<rparr>"
  | (AbortForward) "ctx_done s" "pc s = Forward" "s' = s\<lparr>pc := Returned ForwardAbandoned\<rparr>"
proof -
  from assms have c: "ctx_done s" by (simp add: exec_done_def split: if_splits)
  show thesis
  proof (cases "pc s")
    case (Dispatch i)
    with assms c that(1) show ?thesis by (simp add: exec_done_def)
  next
    case Forward
    with assms c that(2) show ?thesis by (simp add: exec_done_def)
  qed (use assms c in \<open>simp_all add: exec_done_def\<close>)
qed

lemma runner_step_cases [consumes 1, case_names Process Publish Mark Send]:
  assumes "runner_step p sp k s = Some s'"
  obtains
    (Process) d e where "k < length (runners s)" "loc (runners s ! k) = AtProcess"
      "idx (runners s ! k) < length (tasks p)"
      "(tasks p ! idx (runners s ! k)) (ctx_done s) (clone (runners s ! k)) = (d, e)"
      "s' = s\<lparr>runners := (runners s)[k := (runners s ! k)\<lparr>loc := AtPublish, ret := d, err := e\<rparr>],
              trace := trace s @
                (case e of None \<Rightarrow> []
                 | Some m \<Rightarrow> [(Runner (idx (runners s ! k)), ErrorAppend (Errorf (Position sp) m))])\<rparr>"
  | (Publish) "k < length (runners s)" "loc (runners s ! k) = AtPublish"
      "s' = s\<lparr>runners := (runners s)[k := (runners s ! k)\<lparr>loc := AtMark\<rparr>],
              trace := trace s @
                [(Runner (idx (runners s ! k)), ProcessedData (clone (runners s ! k)))]\<rparr>"
  | (Mark) "k < length (runners s)" "loc (runners s ! k) = AtMark"
      "s' = s\<lparr>runners := (runners s)[k := (runners s ! k)\<lparr>loc := AtSend\<rparr>],
              trace := trace s @
                [(Runner (idx (runners s ! k)), MarkAsProcessed (clone (runners s ! k)))]\<rparr>"
  | (Send) "k < length (runners s)" "loc (runners s ! k) = AtSend"
      "length (done_buf s) < done_cap s"
      "s' = s\<lparr>runners := (runners s)[k := (runners s ! k)\<lparr>loc := Exited\<rparr>],
              done_buf := done_buf s @ [ret (runners s ! k)],
              trace := trace s @
                [(Runner (idx (runners s ! k)), DoneSend (ret (runners s ! k)))]\<rparr>"
proof -
  from assms have k: "k < length (runners s)" by (simp add: runner_step_def split: if_splits)
  show thesis
  proof (cases "loc (runners s ! k)")
    case AtProcess
    with assms k that(1) show ?thesis
      by (cases "(tasks p ! idx (runners s ! k)) (ctx_done s) (clone (runners s ! k))")
         (simp add: runner_step_def split: if_splits)
  next
    case AtPublish
    with assms k that(2) show ?thesis by (simp add: runner_step_def)
  next
    case AtMark
    with assms k that(3) show ?thesis by (simp add: runner_step_def)
  next
    case AtSend
    with assms k that(4) show ?thesis by (simp add: runner_step_def split: if_splits)
  next
    case Exited
    with assms k show ?thesis by (simp add: runner_step_def)
  qed
qed

lemma length_filter_update_same:
  "k < length xs \<Longrightarrow> P x = P (xs ! k) \<Longrightarrow> length (filter P (xs[k := x])) = length (filter P xs)"
  using length_filter_update [of k xs P x] by (simp split: if_splits)

lemma length_filter_update_gain:
  "k < length xs \<Longrightarrow> P x \<Longrightarrow> \<not> P (xs ! k) \<Longrightarrow>
   length (filter P (xs[k := x])) = Suc (length (filter P xs))"
  using length_filter_update [of k xs P x] by simp

lemma fan_inv_init: "fan_inv p (executeTask p c x)"
  by (simp add: fan_inv_def pc_ok_def executeTask_def dispatch_at_def join_at_def)

lemma fan_inv_exec:
  assumes "fan_inv p s" and st: "exec_step p s = Some s'"
  shows "fan_inv p s'"
  using st
proof (cases rule: exec_step_cases)
  case (Dispatch i)
  with assms(1) show ?thesis
    by (auto simp: fan_inv_def pc_ok_def dispatch_at_def join_at_def nth_append)
next
  case (Join i v rest)
  with assms(1) show ?thesis
    by (auto simp: fan_inv_def pc_ok_def join_at_def)
next
  case PublishOrig
  with assms(1) show ?thesis
    by (auto simp: fan_inv_def pc_ok_def)
next
  case MarkOrig
  with assms(1) show ?thesis
    by (auto simp: fan_inv_def pc_ok_def)
next
  case Forward
  with assms(1) show ?thesis
    by (auto simp: fan_inv_def pc_ok_def)
qed

lemma fan_inv_done:
  assumes "fan_inv p s" and st: "exec_done s = Some s'"
  shows "fan_inv p s'"
  using st
proof (cases rule: exec_done_cases)
  case (AbortDispatch i)
  with assms(1) show ?thesis
    by (auto simp: fan_inv_def pc_ok_def)
next
  case AbortForward
  with assms(1) show ?thesis
    by (auto simp: fan_inv_def pc_ok_def)
qed

lemma pc_ok_frame:
  "pc s' = pc s \<Longrightarrow> length (runners s') = length (runners s) \<Longrightarrow> received (trace s') = received (trace s) \<Longrightarrow>
   failed s' = failed s \<Longrightarrow> pc_ok p s' = pc_ok p s"
  by (simp add: pc_ok_def)

lemma fan_inv_runner:
  assumes "fan_inv p s" and st: "runner_step p sp k s = Some s'"
  shows "fan_inv p s'"
  using st
proof (cases rule: runner_step_cases)
  case (Process d e)
  have "pc_ok p s' = pc_ok p s"
    by (rule pc_ok_frame) (simp_all add: Process split: option.splits)
  with assms(1) Process length_filter_update [of k "runners s" "\<lambda>r. loc r = Exited"] show ?thesis
    by (auto simp: fan_inv_def nth_list_update split: option.splits)
next
  case Publish
  have "pc_ok p s' = pc_ok p s"
    by (rule pc_ok_frame) (simp_all add: Publish)
  with assms(1) Publish length_filter_update [of k "runners s" "\<lambda>r. loc r = Exited"] show ?thesis
    by (auto simp: fan_inv_def nth_list_update)
next
  case Mark
  have "pc_ok p s' = pc_ok p s"
    by (rule pc_ok_frame) (simp_all add: Mark)
  with assms(1) Mark length_filter_update [of k "runners s" "\<lambda>r. loc r = Exited"] show ?thesis
    by (auto simp: fan_inv_def nth_list_update)
next
  case Send
  have "pc_ok p s' = pc_ok p s"
    by (rule pc_ok_frame) (simp_all add: Send)
  with assms(1) Send length_filter_update [of k "runners s" "\<lambda>r. loc r = Exited"] show ?thesis
    by (auto simp: fan_inv_def nth_list_update)
qed

lemma fan_inv_ctx: "fan_inv p (s\<lparr>ctx_done := c\<rparr>) = fan_inv p s"
  by (simp add: fan_inv_def pc_ok_def)

lemma fan_inv_step:
  assumes "fan_inv p s" and "step p sp a s = Some s'"
  shows "fan_inv p s'"
proof (cases a)
  case Cancel
  with assms have "s' = s\<lparr>ctx_done := True\<rparr>" by (simp add: step_def)
  with assms(1) show ?thesis by (simp add: fan_inv_ctx)
next
  case Exec
  with assms show ?thesis by (simp add: step_def fan_inv_exec)
next
  case ExecDone
  with assms show ?thesis by (simp add: step_def fan_inv_done)
next
  case (Goroutine k)
  with assms show ?thesis by (simp add: step_def fan_inv_runner)
qed

lemma log_inv_init: "log_inv sp (executeTask p c x)"
  by (simp add: log_inv_def exec_log_def executeTask_def dispatch_at_def join_at_def)

lemma log_inv_exec:
  assumes "fan_inv p s" "log_inv sp s" and st: "exec_step p s = Some s'"
  shows "log_inv sp s'"
  using st
proof (cases rule: exec_step_cases)
  case (Dispatch i)
  with assms(1,2) show ?thesis
    by (auto simp: fan_inv_def pc_ok_def log_inv_def exec_log_def runner_log_def dispatch_at_def
        join_at_def nth_append)
next
  case (Join i v rest)
  with assms(1,2) show ?thesis
    by (auto simp: log_inv_def exec_log_def join_at_def)
next
  case PublishOrig
  with assms(1,2) show ?thesis
    by (auto simp: log_inv_def exec_log_def)
next
  case MarkOrig
  with assms(1,2) show ?thesis
    by (auto simp: log_inv_def exec_log_def)
next
  case Forward
  with assms(1,2) show ?thesis
    by (auto simp: log_inv_def exec_log_def)
qed

lemma log_inv_done:
  assumes "log_inv sp s" and st: "exec_done s = Some s'"
  shows "log_inv sp s'"
  using st
proof (cases rule: exec_done_cases)
  case (AbortDispatch i)
  with assms(1) show ?thesis
    by (auto simp: log_inv_def exec_log_def)
next
  case AbortForward
  with assms(1) show ?thesis
    by (auto simp: log_inv_def exec_log_def)
qed

lemma log_inv_runner:
  assumes "fan_inv p s" "log_inv sp s" and st: "runner_step p sp k s = Some s'"
  shows "log_inv sp s'"
  using st
proof (cases rule: runner_step_cases)
  case (Process d e)
  with assms(1,2) show ?thesis
    by (auto simp: fan_inv_def log_inv_def exec_log_def runner_log_def err_log_def
        nth_list_update split: option.splits)
next
  case Publish
  with assms(1,2) show ?thesis
    by (auto simp: fan_inv_def log_inv_def exec_log_def runner_log_def nth_list_update)
next
  case Mark
  with assms(1,2) show ?thesis
    by (auto simp: fan_inv_def log_inv_def exec_log_def runner_log_def nth_list_update)
next
  case Send
  with assms(1,2) show ?thesis
    by (auto simp: fan_inv_def log_inv_def exec_log_def runner_log_def nth_list_update)
qed

lemma log_inv_ctx: "log_inv sp (s\<lparr>ctx_done := c\<rparr>) = log_inv sp s"
  by (simp add: log_inv_def exec_log_def)

lemma chan_inv_init: "chan_inv (executeTask p c x)"
  by (simp add: chan_inv_def executeTask_def orig_published_def orig_marked_def dispatch_at_def join_at_def)

lemma chan_inv_exec:
  assumes "fan_inv p s" "chan_inv s" and st: "exec_step p s = Some s'"
  shows "chan_inv s'"
  using st
proof (cases rule: exec_step_cases)
  case (Dispatch i)
  with assms(1,2) show ?thesis
    by (auto simp: fan_inv_def pc_ok_def chan_inv_def dispatch_at_def join_at_def
        orig_published_def orig_marked_def failed_task_def)
next
  case (Join i v rest)
  with assms(1,2) show ?thesis
    by (auto simp: chan_inv_def join_at_def orig_published_def orig_marked_def)
next
  case PublishOrig
  with assms(1,2) show ?thesis
    by (auto simp: chan_inv_def orig_published_def orig_marked_def)
next
  case MarkOrig
  with assms(1,2) show ?thesis
    by (auto simp: chan_inv_def orig_published_def orig_marked_def)
next
  case Forward
  with assms(1,2) show ?thesis
    by (auto simp: chan_inv_def orig_published_def orig_marked_def)
qed

lemma chan_inv_done:
  assumes "chan_inv s" and st: "exec_done s = Some s'"
  shows "chan_inv s'"
  using st
proof (cases rule: exec_done_cases)
  case (AbortDispatch i)
  with assms(1) show ?thesis
    by (auto simp: chan_inv_def orig_published_def orig_marked_def)
next
  case AbortForward
  with assms(1) show ?thesis
    by (auto simp: chan_inv_def orig_published_def orig_marked_def)
qed

lemma chan_inv_runner:
  assumes "fan_inv p s" "chan_inv s" and st: "runner_step p sp k s = Some s'"
  shows "chan_inv s'"
  using st
proof (cases rule: runner_step_cases)
  case (Process d e)
  with assms(1,2) show ?thesis
    by (auto simp: fan_inv_def chan_inv_def failed_task_def length_filter_update_same
        length_filter_update_gain split: option.splits)
next
  case Publish
  with assms(1,2) show ?thesis
    by (auto simp: fan_inv_def chan_inv_def failed_task_def length_filter_update_same
        length_filter_update_gain)
next
  case Mark
  with assms(1,2) show ?thesis
    by (auto simp: fan_inv_def chan_inv_def failed_task_def length_filter_update_same
        length_filter_update_gain)
next
  case Send
  with assms(1,2) show ?thesis
    by (auto simp: fan_inv_def chan_inv_def failed_task_def length_filter_update_same
        length_filter_update_gain)
qed

lemma chan_inv_ctx: "chan_inv (s\<lparr>ctx_done := c\<rparr>) = chan_inv s"
  by (simp add: chan_inv_def)

lemma result_inv_init: "result_inv p (executeTask p c x)"
  by (simp add: result_inv_def executeTask_def)

lemma result_inv_exec:
  assumes "fan_inv p s" "result_inv p s" and st: "exec_step p s = Some s'"
  shows "result_inv p s'"
  using st
proof (cases rule: exec_step_cases)
  case (Dispatch i)
  with assms(1,2) show ?thesis
    by (auto simp: fan_inv_def pc_ok_def result_inv_def nth_append)
qed (use assms(2) in \<open>auto simp: result_inv_def\<close>)

lemma result_inv_done:
  assumes "result_inv p s" and st: "exec_done s = Some s'"
  shows "result_inv p s'"
  using st by (cases rule: exec_done_cases) (use assms(1) in \<open>auto simp: result_inv_def\<close>)

lemma result_inv_runner:
  assumes "fan_inv p s" "result_inv p s" and st: "runner_step p sp k s = Some s'"
  shows "result_inv p s'"
  using st
proof (cases rule: runner_step_cases)
  case (Process d e)
  with assms(1,2) show ?thesis
    by (auto simp: fan_inv_def result_inv_def nth_list_update)
qed (use assms(2) in \<open>auto simp: result_inv_def nth_list_update\<close>)

lemma result_inv_ctx: "result_inv p (s\<lparr>ctx_done := c\<rparr>) = result_inv p s"
  by (simp add: result_inv_def)

lemma step_cases [consumes 1, case_names Cancel Exec ExecDone Goroutine]:
  assumes "step p sp a s = Some s'"
  obtains
    (Cancel) "a = Cancel" "s' = s\<lparr>ctx_done := True\<rparr>"
  | (Exec) "a = Exec" "exec_step p s = Some s'"
  | (ExecDone) "a = ExecDone" "exec_done s = Some s'"
  | (Goroutine) k where "a = Goroutine k" "runner_step p sp k s = Some s'"
  using assms by (cases a) (auto simp: step_def)

lemma good_init: "good p sp (executeTask p c x)"
  by (simp add: good_def fan_inv_init log_inv_init chan_inv_init result_inv_init)

lemma good_step:
  assumes "good p sp s" and st: "step p sp a s = Some s'"
  shows "good p sp s'"
  using st
proof (cases rule: step_cases)
  case Cancel
  with assms(1) show ?thesis
    by (simp add: good_def fan_inv_ctx log_inv_ctx chan_inv_ctx result_inv_ctx)
next
  case Exec
  with assms(1) show ?thesis
    unfolding good_def
    by (blast intro: fan_inv_exec log_inv_exec chan_inv_exec result_inv_exec)
next
  case ExecDone
  with assms(1) show ?thesis
    unfolding good_def
    by (blast intro: fan_inv_done log_inv_done chan_inv_done result_inv_done)
next
  case (Goroutine k)
  with assms(1) show ?thesis
    unfolding good_def
    by (blast intro: fan_inv_runner log_inv_runner chan_inv_runner result_inv_runner)
qed

lemma step_data:
  assumes st: "step p sp a s = Some s'"
  shows "data s' = data s"
  using st
proof (cases rule: step_cases)
  case Exec
  from Exec(2) show ?thesis by (cases rule: exec_step_cases) simp_all
next
  case ExecDone
  from ExecDone(2) show ?thesis by (cases rule: exec_done_cases) simp_all
next
  case (Goroutine k)
  from Goroutine(2) show ?thesis by (cases rule: runner_step_cases) simp_all
qed simp

lemma good_run:
  "good p sp s \<Longrightarrow> run p sp as s = Some s' \<Longrightarrow> good p sp s' \<and> data s' = data s"
proof (induction as arbitrary: s)
  case Nil
  then show ?case by simp
next
  case (Cons a as)
  from Cons.prems(2) obtain u where u: "step p sp a s = Some u" "run p sp as u = Some s'"
    by (auto split: option.splits)
  from Cons.prems(1) u(1) have "good p sp u" by (rule good_step)
  with Cons.IH u(2) have "good p sp s' \<and> data s' = data u" by blast
  with step_data [OF u(1)] show ?case by simp
qed

lemma reach_good:
  assumes "run p sp as (executeTask p c x) = Some s"
  shows "good p sp s" and "data s = x"
  using good_run [OF good_init assms] by (simp_all add: executeTask_def)

lemma runners_le:
  "fan_inv p s \<Longrightarrow> length (runners s) \<le> length (tasks p)"
  by (auto simp: fan_inv_def pc_ok_def split: if_splits)

lemma room_in_done:
  assumes "fan_inv p s" "k < length (runners s)" "loc (runners s ! k) \<noteq> Exited"
  shows "length (done_buf s) < done_cap s"
proof -
  have "runners s ! k \<in> set (runners s)" using assms(2) by simp
  with assms(3) have "length (filter (\<lambda>r. loc r = Exited) (runners s)) < length (runners s)"
    by (intro length_filter_less) auto
  moreover have "length (done_buf s) \<le> length (filter (\<lambda>r. loc r = Exited) (runners s))"
    using assms(1) by (auto simp: fan_inv_def)
  moreover have "done_cap s = length (tasks p)" using assms(1) by (simp add: fan_inv_def)
  ultimately show ?thesis using runners_le [OF assms(1)] by simp
qed

lemma runner_enabled:
  assumes "fan_inv p s" "k < length (runners s)" "loc (runners s ! k) \<noteq> Exited"
  shows "runner_step p sp k s \<noteq> None"
proof -
  have "idx (runners s ! k) < length (tasks p)"
    using assms(1,2) runners_le [OF assms(1)] by (auto simp: fan_inv_def)
  with room_in_done [OF assms] assms(2,3) show ?thesis
    by (cases "loc (runners s ! k)") (auto simp: runner_step_def split: prod.splits)
qed

lemma all_exited:
  assumes "fan_inv p s" "length (received (trace s)) = length (tasks p)"
  shows "length (runners s) = length (tasks p) \<and> (\<forall>r \<in> set (runners s). loc r = Exited)"
proof -
  let ?n = "length (filter (\<lambda>r. loc r = Exited) (runners s))"
  have "length (tasks p) \<le> ?n" using assms by (auto simp: fan_inv_def)
  then have eq: "?n = length (runners s)" "length (runners s) = length (tasks p)"
    using runners_le [OF assms(1)] length_filter_le [of "\<lambda>r. loc r = Exited" "runners s"]
    by linarith+
  have "\<forall>r \<in> set (runners s). loc r = Exited"
  proof (rule ccontr)
    assume "\<not> ?thesis"
    then obtain r where "r \<in> set (runners s)" "loc r \<noteq> Exited" by blast
    then have "?n < length (runners s)" by (intro length_filter_less) auto
    with eq show False by simp
  qed
  with eq show ?thesis by simp
qed

lemma run_snoc_split:
  assumes "run p sp (as @ a # bs) s0 = Some t" "run p sp as s0 = Some s"
  obtains s' where "step p sp a s = Some s'" "run p sp bs s' = Some t"
  using assms by (auto simp: run_append split: option.splits)

lemma returned_step:
  assumes st: "step p sp a s = Some s'" and r: "returned (pc s)"
  shows "pc s' = pc s \<and> length (runners s') = length (runners s) \<and>
         by_actor Executor (trace s') = by_actor Executor (trace s)"
  using st
proof (cases rule: step_cases)
  case Cancel
  then show ?thesis by simp
next
  case Exec
  from Exec(2) r show ?thesis by (cases rule: exec_step_cases) simp_all
next
  case ExecDone
  from ExecDone(2) r show ?thesis by (cases rule: exec_done_cases) simp_all
next
  case (Goroutine k)
  from Goroutine(2) show ?thesis
    by (cases rule: runner_step_cases) (simp_all split: option.splits)
qed

lemma returned_run:
  "run p sp bs s = Some t \<Longrightarrow> returned (pc s) \<Longrightarrow>
   pc t = pc s \<and> length (runners t) = length (runners s) \<and>
   by_actor Executor (trace t) = by_actor Executor (trace s)"
proof (induction bs arbitrary: s)
  case Nil
  then show ?case by simp
next
  case (Cons a bs)
  from Cons.prems(1) obtain u where u: "step p sp a s = Some u" "run p sp bs u = Some t"
    by (auto split: option.splits)
  from returned_step [OF u(1) Cons.prems(2)] Cons.IH [OF u(2)] Cons.prems(2)
  show ?case by simp
qed

lemma pc_forward_iff:
  assumes "fan_inv p s"
  shows "(length (received (trace s)) = length (tasks p) \<and> None \<notin> set (received (trace s))) =
         pass_path (pc s)"
proof (cases "pc s")
  case (Returned r)
  with assms show ?thesis by (cases r) (auto simp: fan_inv_def pc_ok_def)
qed (use assms in \<open>auto simp: fan_inv_def pc_ok_def\<close>)

lemma pc_fail_iff:
  assumes "fan_inv p s"
  shows "(length (received (trace s)) = length (tasks p) \<and> None \<in> set (received (trace s))) =
         fail_path (pc s)"
proof (cases "pc s")
  case (Returned r)
  with assms show ?thesis by (cases r) (auto simp: fan_inv_def pc_ok_def)
qed (use assms in \<open>auto simp: fan_inv_def pc_ok_def\<close>)

lemmas eval_defs = step_def exec_step_def exec_done_def runner_step_def executeTask_def
  dispatch_at_def join_at_def par1_def par2_def succeed_def boom_def sp2_def

lemma obs_Cons:
  "received (y # t) = recv_val (snd y) @ received t"
  "sent_done (y # t) = send_val (snd y) @ sent_done t"
  "Output_ch (y # t) = output_val (snd y) @ Output_ch t"
  "ProcessedData_ch (y # t) = processed_val (snd y) @ ProcessedData_ch t"
  "NewData_ch (y # t) = newdata_val (snd y) @ NewData_ch t"
  "marked (y # t) = marked_val (snd y) @ marked t"
  "Error_sink (y # t) = error_val (snd y) @ Error_sink t"
  by (simp_all add: received_def sent_done_def Output_ch_def ProcessedData_ch_def NewData_ch_def
      marked_def Error_sink_def)

lemma by_actor_Cons: "by_actor a (y # t) = (if fst y = a then y # by_actor a t else by_actor a t)"
  by (simp add: by_actor_def)

lemma run_forwarded_eq:
  "run par1 sp2 sched_forwarded (executeTask par1 False (Item 0)) = Some run_forwarded"
  by (simp add: run_forwarded_def sched_forwarded_def eval_defs)

lemma run_forwarded_state:
  "pc run_forwarded = Returned Forwarded"
  "trace run_forwarded =
     [(Executor, NewData (Clone (Item 0) 0)),
      (Runner 0, ProcessedData (Clone (Item 0) 0)),
      (Runner 0, MarkAsProcessed (Clone (Item 0) 0)),
      (Runner 0, DoneSend (Some (Clone (Item 0) 0))),
      (Executor, DoneRecv (Some (Clone (Item 0) 0))),
      (Executor, Output (Item 0))]"
  by (simp_all add: run_forwarded_def sched_forwarded_def eval_defs)

lemma run_forward_cancelled_state:
  "pc run_forward_cancelled = Returned ForwardAbandoned"
  "trace run_forward_cancelled =
     [(Executor, NewData (Clone (Item 0) 0)),
      (Runner 0, ProcessedData (Clone (Item 0) 0)),
      (Runner 0, MarkAsProcessed (Clone (Item 0) 0)),
      (Runner 0, DoneSend (Some (Clone (Item 0) 0))),
      (Executor, DoneRecv (Some (Clone (Item 0) 0)))]"
  by (simp_all add: run_forward_cancelled_def sched_forward_cancelled_def eval_defs)

lemma Errorf_2_boom: "Errorf 2 ''boom'' = ''pipeline stage 2: boom''"
  by (simp add: Errorf_def fmt_d_def decimal.simps digit_def)

lemma run_dropped_eq:
  "run par2 sp2 sched_dropped (executeTask par2 False (Item 0)) = Some run_dropped"
  by (simp add: run_dropped_def sched_dropped_def eval_defs)

lemma run_dropped_state:
  "pc run_dropped = Returned Dropped"
  "trace run_dropped =
     [(Executor, NewData (Clone (Item 0) 0)),
      (Executor, NewData (Clone (Item 0) (Suc 0))),
      (Runner 0, ProcessedData (Clone (Item 0) 0)),
      (Runner 0, MarkAsProcessed (Clone (Item 0) 0)),
      (Runner 0, DoneSend (Some (Clone (Item 0) 0))),
      (Runner (Suc 0), ErrorAppend ''pipeline stage 2: boom''),
      (Runner (Suc 0), ProcessedData (Clone (Item 0) (Suc 0))),
      (Runner (Suc 0), MarkAsProcessed (Clone (Item 0) (Suc 0))),
      (Runner (Suc 0), DoneSend None),
      (Executor, DoneRecv (Some (Clone (Item 0) 0))),
      (Executor, DoneRecv None),
      (Executor, ProcessedData (Item 0)),
      (Executor, MarkAsProcessed (Item 0))]"
  "map loc (runners run_dropped) = [Exited, Exited]"
  "map err (runners run_dropped) = [None, Some ''boom'']"
  "map ret (runners run_dropped) = [Some (Clone (Item 0) 0), None]"
  by (simp_all add: run_dropped_def sched_dropped_def eval_defs Errorf_2_boom)

lemma resolved_received:
  assumes "fan_inv p s" "returned (pc s)" "pc s \<noteq> Returned Abandoned"
  shows "length (received (trace s)) = length (tasks p)"
proof (cases "pc s")
  case (Returned r)
  with assms show ?thesis by (cases r) (auto simp: fan_inv_def pc_ok_def)
qed (use assms in auto)

lemma resolved_final:
  assumes g: "fan_inv p s" and r: "returned (pc s)" "pc s \<noteq> Returned Abandoned"
    and st: "step p sp a s = Some s'"
  shows "trace s' = trace s"
proof -
  from g r have "length (received (trace s)) = length (tasks p)"
    by (rule resolved_received)
  from all_exited [OF g this] have ex: "\<forall>r \<in> set (runners s). loc r = Exited" by simp
  from st show ?thesis
  proof (cases rule: step_cases)
    case Cancel
    then show ?thesis by simp
  next
    case Exec
    from Exec(2) r(1) show ?thesis by (cases rule: exec_step_cases) simp_all
  next
    case ExecDone
    from ExecDone(2) r(1) show ?thesis by (cases rule: exec_done_cases) simp_all
  next
    case (Goroutine k)
    from Goroutine(2) ex show ?thesis by (cases rule: runner_step_cases) auto
  qed
qed

lemma published_all:
  assumes "\<forall>r \<in> set xs. loc r = Exited"
  shows "length (filter (\<lambda>r. published (loc r)) xs) = length xs"
  using assms by (induction xs) auto

lemma run_joining_eq:
  "run par2 sp2 sched_joining (executeTask par2 False (Item 0)) = Some run_joining"
  by (simp add: run_joining_def sched_joining_def eval_defs)

lemma run_joining_state:
  "pc run_joining = Join 0"
  "map loc (runners run_joining) = [AtSend, AtProcess]"
  "done_buf run_joining = []"
  "done_cap run_joining = 2"
  "ctx_done run_joining = False"
  by (simp_all add: run_joining_def sched_joining_def eval_defs)

lemma Error_sink_map: "Error_sink t = concat (map error_val (map snd t))"
  by (simp add: Error_sink_def comp_def)

lemma error_val_err_log:
  "concat (map error_val (err_log sp e)) = (case e of None \<Rightarrow> [] | Some m \<Rightarrow> [Errorf (Position sp) m])"
  by (simp add: err_log_def split: option.splits)

lemma error_val_runner_log:
  "loc r \<noteq> AtProcess \<Longrightarrow>
   concat (map error_val (runner_log sp r)) =
   (case err r of None \<Rightarrow> [] | Some m \<Rightarrow> [Errorf (Position sp) m])"
  by (cases "loc r") (simp_all add: runner_log_def error_val_err_log)

lemma run_before_abandon_eq:
  "run par2 sp2 sched_abandoned (executeTask par2 False (Item 0)) = Some run_before_abandon"
  by (simp add: run_before_abandon_def sched_abandoned_def eval_defs)

lemma run_before_abandon_state:
  "pc run_before_abandon = Dispatch (Suc 0)"
  by (simp add: run_before_abandon_def sched_abandoned_def eval_defs)

lemma run_abandoned_state:
  "ProcessedData_ch (trace run_abandoned) = [Clone (Item 0) 0]"
  by (simp add: run_abandoned_def sched_abandoned_def eval_defs obs_Cons)

lemma run_before_forward_eq:
  "run par1 sp2 sched_before_forward (executeTask par1 False (Item 0)) = Some run_before_forward"
  by (simp add: run_before_forward_def sched_before_forward_def eval_defs)

lemma run_before_forward_state:
  "pc run_before_forward = Forward"
  by (simp add: run_before_forward_def sched_before_forward_def eval_defs)

lemma done_buf_le:
  assumes "fan_inv p s"
  shows "length (done_buf s) \<le> done_cap s"
proof -
  have "length (done_buf s) \<le> length (filter (\<lambda>r. loc r = Exited) (runners s))"
    using assms by (auto simp: fan_inv_def)
  also have "\<dots> \<le> length (runners s)" by simp
  also have "\<dots> \<le> done_cap s" using runners_le [OF assms] assms by (simp add: fan_inv_def)
  finally show ?thesis .
qed

lemma original_counts:
  assumes "run p sp as (executeTask p c x) = Some s"
  shows "pass_path (pc s) \<and> returned (pc s) \<Longrightarrow>
           count_list (ProcessedData_ch (trace s)) x = 0 \<and> count_list (marked (trace s)) x = 0 \<and>
           length (ProcessedData_ch (trace s)) = length (tasks p) \<and>
           (pc s = Returned ForwardAbandoned \<longrightarrow> Output_ch (trace s) = [])"
proof -
  assume r: "pass_path (pc s) \<and> returned (pc s)"
  from reach_good [OF assms] have g: "fan_inv p s" "chan_inv s" and d: "data s = x"
    by (simp_all add: good_def)
  from r have na: "pc s \<noteq> Returned Abandoned" by auto
  from r resolved_received [OF g(1) _ na] have "length (received (trace s)) = length (tasks p)"
    by simp
  from all_exited [OF g(1) this] published_all [of "runners s"]
  have n: "length (filter (\<lambda>r. published (loc r)) (runners s)) = length (tasks p)" by simp
  from r have q: "pc s \<noteq> MarkOrig" "pc s \<noteq> Returned Dropped" by auto
  with g(2) d n show ?thesis
    by (auto simp: chan_inv_def orig_published_def orig_marked_def)
qed

lemma resolved_run:
  "run p sp bs s = Some t \<Longrightarrow> fan_inv p s \<Longrightarrow> returned (pc s) \<Longrightarrow>
   pc s \<noteq> Returned Abandoned \<Longrightarrow> trace t = trace s \<and> pc t = pc s"
proof (induction bs arbitrary: s)
  case Nil
  then show ?case by simp
next
  case (Cons a bs)
  from Cons.prems(1) obtain u where u: "step p sp a s = Some u" "run p sp bs u = Some t"
    by (auto split: option.splits)
  have "fan_inv p u" using Cons.prems(2) u(1) by (rule fan_inv_step)
  moreover have "pc u = pc s" using returned_step [OF u(1) Cons.prems(3)] by simp
  moreover have "trace u = trace s"
    using resolved_final [OF Cons.prems(2,3,4) u(1)] .
  ultimately show ?case using Cons.IH [OF u(2)] Cons.prems(3,4) by simp
qed

lemma at_select_view: "loop_view l1 = loop_view l2 \<Longrightarrow> at_select l1 = at_select l2"
  by (simp add: loop_view_def at_select_def)

lemma Run_step_view:
  assumes "loop_view l1 = loop_view l2" "\<not> admits a"
  shows "map_option loop_view (Run_step p sp a l1) = map_option loop_view (Run_step p sp a l2)"
proof (cases a)
  case CtxCancel
  with assms show ?thesis by (simp add: Run_step_def loop_view_def)
next
  case SelectDone
  with assms at_select_view [OF assms(1)] show ?thesis
    by (simp add: Run_step_def loop_view_def)
next
  case (Inner k b)
  with assms show ?thesis
    by (simp add: Run_step_def loop_view_def split: option.splits)
qed (use assms in simp_all)

lemma Run_view:
  "loop_view l1 = loop_view l2 \<Longrightarrow> \<forall>a \<in> set acts. \<not> admits a \<Longrightarrow>
   map_option loop_view (Run p sp acts l1) = map_option loop_view (Run p sp acts l2)"
proof (induction acts arbitrary: l1 l2)
  case Nil
  then show ?case by simp
next
  case (Cons a acts)
  from Cons.prems have v: "map_option loop_view (Run_step p sp a l1) =
      map_option loop_view (Run_step p sp a l2)"
    by (intro Run_step_view) simp_all
  show ?case
  proof (cases "Run_step p sp a l1")
    case None
    with v show ?thesis by simp
  next
    case (Some m1)
    with v obtain m2 where m2: "Run_step p sp a l2 = Some m2" "loop_view m1 = loop_view m2"
      by (cases "Run_step p sp a l2") auto
    with Some Cons.IH [OF m2(2)] Cons.prems(2) show ?thesis by simp
  qed
qed

lemma Run_Inner:
  "k < length (calls l) \<Longrightarrow> Cancel \<notin> set as \<Longrightarrow>
   Run p sp (map (Inner k) as) l =
   map_option (\<lambda>c. l\<lparr>calls := (calls l)[k := c]\<rparr>) (run p sp as (calls l ! k))"
proof (induction as arbitrary: l)
  case Nil
  then show ?case by simp
next
  case (Cons a as)
  show ?case
  proof (cases "step p sp a (calls l ! k)")
    case None
    with Cons.prems show ?thesis by (simp add: Run_step_def)
  next
    case (Some c')
    let ?l = "l\<lparr>calls := (calls l)[k := c']\<rparr>"
    from Cons.prems Some have st: "Run_step p sp (Inner k a) l = Some ?l"
      by (auto simp: Run_step_def)
    from Cons.prems have "Run p sp (map (Inner k) as) ?l =
        map_option (\<lambda>c. ?l\<lparr>calls := (calls ?l)[k := c]\<rparr>) (run p sp as (calls ?l ! k))"
      by (intro Cons.IH) simp_all
    with st Some Cons.prems(1) show ?thesis by simp
  qed
qed

lemma loop_input_admit:
  "Run_step par1 sp2 SelectInput loop_input =
   Some (loop_input\<lparr>Input := [], calls := [executeTask par1 False (Item 0)]\<rparr>)"
  by (simp add: Run_step_def at_select_def loop_input_def)

lemma loop_input_run:
  "Run par1 sp2 (SelectInput # map (Inner 0) sched_forwarded) loop_input =
   Some (loop_input\<lparr>Input := [], calls := [run_forwarded]\<rparr>)"
proof -
  have c: "Cancel \<notin> set sched_forwarded" by (simp add: sched_forwarded_def)
  let ?l = "loop_input\<lparr>Input := [], calls := [executeTask par1 False (Item 0)]\<rparr>"
  have "Run par1 sp2 (map (Inner 0) sched_forwarded) ?l =
      map_option (\<lambda>c. ?l\<lparr>calls := (calls ?l)[0 := c]\<rparr>)
        (run par1 sp2 sched_forwarded (calls ?l ! 0))"
    by (rule Run_Inner) (simp_all add: c)
  then show ?thesis by (simp add: loop_input_admit run_forwarded_eq)
qed

lemma abandoned_after_cancel:
  assumes "run p sp as (executeTask p c x) = Some s" and "pc s = Dispatch i"
    and "run p sp (as @ ExecDone # bs) (executeTask p c x) = Some t"
  shows "ctx_done s \<and> step p sp ExecDone s = Some (s\<lparr>pc := Returned Abandoned\<rparr>) \<and>
         pc t = Returned Abandoned \<and>
         length (runners s) = i \<and> length (runners t) = i \<and> i < length (tasks p) \<and>
         map snd (by_actor Executor (trace t)) = map (\<lambda>k. NewData (Clone x k)) [0..<i] \<and>
         received (trace t) = [] \<and> Output_ch (trace t) = [] \<and>
         count_list (ProcessedData_ch (trace t)) x = 0 \<and>
         count_list (marked (trace t)) x = 0 \<and>
         step p sp Exec t = None \<and> step p sp ExecDone t = None"
proof -
  from assms(3,1) obtain s' where s': "step p sp ExecDone s = Some s'" "run p sp bs s' = Some t"
    by (rule run_snoc_split)
  from s'(1) assms(2) have c: "ctx_done s" and e: "s' = s\<lparr>pc := Returned Abandoned\<rparr>"
    by (auto simp: step_def exec_done_def split: if_splits)
  from returned_run [OF s'(2)] e have t: "pc t = Returned Abandoned"
    "length (runners t) = length (runners s)"
    by simp_all
  from reach_good [OF assms(1)] have gs: "fan_inv p s" by (simp add: good_def)
  from reach_good [OF assms(3)] have gt: "fan_inv p t" "chan_inv t" "log_inv sp t"
    and d: "data t = x"
    by (simp_all add: good_def)
  have n: "length (runners s) = i" "i < length (tasks p)"
    using gs assms(2) by (auto simp: fan_inv_def pc_ok_def)
  have r: "received (trace t) = []" using gt(1) t(1) by (simp add: fan_inv_def pc_ok_def)
  have l: "map snd (by_actor Executor (trace t)) = map (\<lambda>k. NewData (Clone x k)) [0..<i]"
    using gt(3) t n d r by (simp add: log_inv_def exec_log_def)
  have o: "Output_ch (trace t) = []" "count_list (ProcessedData_ch (trace t)) x = 0"
    "count_list (marked (trace t)) x = 0"
    using gt(2) t(1) d by (simp_all add: chan_inv_def orig_published_def orig_marked_def)
  have f: "step p sp Exec t = None" "step p sp ExecDone t = None"
    using t(1) by (simp_all add: step_def exec_step_def exec_done_def)
  from c e s'(1) t n r l o f show ?thesis by simp
qed

lemma forward_abandoned_after_cancel:
  assumes "run p sp as (executeTask p c x) = Some s" and "pc s = Forward"
    and "run p sp (as @ ExecDone # bs) (executeTask p c x) = Some t"
  shows "ctx_done s \<and> step p sp ExecDone s = Some (s\<lparr>pc := Returned ForwardAbandoned\<rparr>) \<and>
         pc t = Returned ForwardAbandoned \<and> trace t = trace s \<and>
         length (received (trace t)) = length (tasks p) \<and> None \<notin> set (received (trace t)) \<and>
         Output_ch (trace t) = [] \<and>
         count_list (ProcessedData_ch (trace t)) x = 0 \<and>
         count_list (marked (trace t)) x = 0 \<and>
         length (ProcessedData_ch (trace t)) = length (tasks p)"
proof -
  from assms(3,1) obtain s' where s': "step p sp ExecDone s = Some s'" "run p sp bs s' = Some t"
    by (rule run_snoc_split)
  from s'(1) assms(2) have c: "ctx_done s" and e: "s' = s\<lparr>pc := Returned ForwardAbandoned\<rparr>"
    by (auto simp: step_def exec_done_def split: if_splits)
  have gs': "fan_inv p s'"
    using reach_good(1) [OF assms(1)] s'(1) by (auto simp: good_def intro: fan_inv_step)
  from resolved_run [OF s'(2) gs'] e have t: "trace t = trace s" "pc t = Returned ForwardAbandoned"
    by simp_all
  from reach_good [OF assms(3)] have gt: "fan_inv p t" and d: "data t = x"
    by (simp_all add: good_def)
  from pc_forward_iff [OF gt] t(2)
  have r: "length (received (trace t)) = length (tasks p)" "None \<notin> set (received (trace t))"
    by simp_all
  from original_counts [OF assms(3)] t(2)
  have o: "count_list (ProcessedData_ch (trace t)) x = 0" "count_list (marked (trace t)) x = 0"
    "length (ProcessedData_ch (trace t)) = length (tasks p)" "Output_ch (trace t) = []"
    by simp_all
  from c e s'(1) t r o show ?thesis by simp
qed

lemma run_abandoned_from:
  "ctx_done run_before_abandon"
  "run par2 sp2 [Goroutine 0, Goroutine 0, Goroutine 0, Goroutine 0]
     (run_before_abandon\<lparr>pc := Returned Abandoned\<rparr>) = Some run_abandoned"
  by (simp_all add: run_before_abandon_def run_abandoned_def sched_abandoned_def eval_defs)

lemma run_forward_cancelled_from:
  "ctx_done run_before_forward"
  "run par1 sp2 [] (run_before_forward\<lparr>pc := Returned ForwardAbandoned\<rparr>) =
   Some run_forward_cancelled"
  by (simp_all add: run_before_forward_def run_forward_cancelled_def sched_before_forward_def
      sched_forward_cancelled_def eval_defs)

lemma run_after_ExecDone:
  assumes "run p sp as s0 = Some s" "step p sp ExecDone s = Some s'" "run p sp bs s' = Some t"
  shows "run p sp (as @ ExecDone # bs) s0 = Some t"
  using assms by (simp add: run_append)

lemma run_dispatched_eq:
  "run par2 sp2 sched_dispatched (executeTask par2 False (Item 0)) = Some run_dispatched"
  by (simp add: run_dispatched_def sched_dispatched_def eval_defs)

lemma run_dispatched_state:
  "map loc (runners run_dispatched) = [AtProcess, AtProcess]"
  "trace run_dispatched =
     [(Executor, NewData (Clone (Item 0) 0)), (Executor, NewData (Clone (Item 0) (Suc 0)))]"
  "done_buf run_dispatched = []"
  "ctx_done run_dispatched = False"
  by (simp_all add: run_dispatched_def sched_dispatched_def eval_defs)

lemma runner_facts:
  assumes "fan_inv p s" "k < length (runners s)"
  shows "idx (runners s ! k) = k" "clone (runners s ! k) = Clone (data s) k"
    "k < length (tasks p)"
  using assms runners_le [OF assms(1)] by (auto simp: fan_inv_def)

lemma runner_process_step:
  assumes "fan_inv p s" "k < length (runners s)" "loc (runners s ! k) = AtProcess"
    and "(tasks p ! k) (ctx_done s) (Clone (data s) k) = (d, e)"
  shows "step p sp (Goroutine k) s =
         Some (s\<lparr>runners := (runners s)[k := (runners s ! k)\<lparr>loc := AtPublish, ret := d, err := e\<rparr>],
                 trace := trace s @ map (Pair (Runner k)) (err_log sp e)\<rparr>)"
  using assms runner_facts [OF assms(1,2)]
  by (simp add: step_def runner_step_def err_log_def split: option.splits)

lemma runner_publish_step:
  assumes "fan_inv p s" "k < length (runners s)" "loc (runners s ! k) = AtPublish"
  shows "step p sp (Goroutine k) s =
         Some (s\<lparr>runners := (runners s)[k := (runners s ! k)\<lparr>loc := AtMark\<rparr>],
                 trace := trace s @ [(Runner k, ProcessedData (Clone (data s) k))]\<rparr>)"
  using assms runner_facts [OF assms(1,2)] by (simp add: step_def runner_step_def)

lemma runner_mark_step:
  assumes "fan_inv p s" "k < length (runners s)" "loc (runners s ! k) = AtMark"
  shows "step p sp (Goroutine k) s =
         Some (s\<lparr>runners := (runners s)[k := (runners s ! k)\<lparr>loc := AtSend\<rparr>],
                 trace := trace s @ [(Runner k, MarkAsProcessed (Clone (data s) k))]\<rparr>)"
  using assms runner_facts [OF assms(1,2)] by (simp add: step_def runner_step_def)

lemma runner_send_step:
  assumes "fan_inv p s" "k < length (runners s)" "loc (runners s ! k) = AtSend"
  shows "step p sp (Goroutine k) s =
         Some (s\<lparr>runners := (runners s)[k := (runners s ! k)\<lparr>loc := Exited\<rparr>],
                 done_buf := done_buf s @ [ret (runners s ! k)],
                 trace := trace s @ [(Runner k, DoneSend (ret (runners s ! k)))]\<rparr>)"
  using assms runner_facts [OF assms(1,2)] room_in_done [OF assms(1,2)]
  by (simp add: step_def runner_step_def)

lemma runner_runs_to_exit:
  assumes "fan_inv p s" "k < length (runners s)" "loc (runners s ! k) = AtProcess"
    and "(tasks p ! k) (ctx_done s) (Clone (data s) k) = (d, e)"
  shows "run p sp [Goroutine k, Goroutine k, Goroutine k, Goroutine k] s =
         Some (s\<lparr>runners := (runners s)[k := (runners s ! k)\<lparr>ret := d, err := e, loc := Exited\<rparr>],
                 done_buf := done_buf s @ [d],
                 trace := trace s @ map (Pair (Runner k))
                   (err_log sp e @
                    [ProcessedData (Clone (data s) k), MarkAsProcessed (Clone (data s) k),
                     DoneSend d])\<rparr>)"
proof -
  let ?s1 = "s\<lparr>runners := (runners s)[k := (runners s ! k)\<lparr>loc := AtPublish, ret := d, err := e\<rparr>],
                 trace := trace s @ map (Pair (Runner k)) (err_log sp e)\<rparr>"
  have 1: "step p sp (Goroutine k) s = Some ?s1" using assms by (rule runner_process_step)
  have i1: "fan_inv p ?s1" using assms(1) 1 by (rule fan_inv_step)
  let ?s2 = "?s1\<lparr>runners := (runners ?s1)[k := (runners ?s1 ! k)\<lparr>loc := AtMark\<rparr>],
                 trace := trace ?s1 @ [(Runner k, ProcessedData (Clone (data ?s1) k))]\<rparr>"
  have 2: "step p sp (Goroutine k) ?s1 = Some ?s2"
    by (rule runner_publish_step [OF i1]) (use assms(2) in simp_all)
  have i2: "fan_inv p ?s2" using i1 2 by (rule fan_inv_step)
  let ?s3 = "?s2\<lparr>runners := (runners ?s2)[k := (runners ?s2 ! k)\<lparr>loc := AtSend\<rparr>],
                 trace := trace ?s2 @ [(Runner k, MarkAsProcessed (Clone (data ?s2) k))]\<rparr>"
  have 3: "step p sp (Goroutine k) ?s2 = Some ?s3"
    by (rule runner_mark_step [OF i2]) (use assms(2) in simp_all)
  have i3: "fan_inv p ?s3" using i2 3 by (rule fan_inv_step)
  let ?s4 = "?s3\<lparr>runners := (runners ?s3)[k := (runners ?s3 ! k)\<lparr>loc := Exited\<rparr>],
                 done_buf := done_buf ?s3 @ [ret (runners ?s3 ! k)],
                 trace := trace ?s3 @ [(Runner k, DoneSend (ret (runners ?s3 ! k)))]\<rparr>"
  have 4: "step p sp (Goroutine k) ?s3 = Some ?s4"
    by (rule runner_send_step [OF i3]) (use assms(2) in simp_all)
  have "run p sp [Goroutine k, Goroutine k, Goroutine k, Goroutine k] s = Some ?s4"
    by (simp only: run.simps 1 2 3 4 option.case)
  also have "?s4 = s\<lparr>runners := (runners s)[k := (runners s ! k)\<lparr>ret := d, err := e, loc := Exited\<rparr>],
                 done_buf := done_buf s @ [d],
                 trace := trace s @ map (Pair (Runner k))
                   (err_log sp e @
                    [ProcessedData (Clone (data s) k), MarkAsProcessed (Clone (data s) k),
                     DoneSend d])\<rparr>"
    using assms(2) by simp
  finally show ?thesis .
qed

lemma below_ten: "(n::nat) < 10 \<Longrightarrow> n \<in> {0, 1, 2, 3, 4, 5, 6, 7, 8, 9}"
  by simp arith

lemma digit_props:
  assumes "n < 10"
  shows "digit_val (digit n) = n" "digit n \<noteq> CHR '':''" "digit n \<noteq> CHR ''-''"
  using below_ten [OF assms] by (auto simp: digit_def digit_val_def)

lemma read_nat_snoc: "read_nat (cs @ [c]) = 10 * read_nat cs + digit_val c"
  by (simp add: read_nat_def)

lemma read_nat_decimal: "read_nat (decimal n) = n"
proof (induction n rule: decimal.induct)
  case (1 n)
  show ?case
  proof (cases "n < 10")
    case True
    then show ?thesis by (simp add: decimal.simps [of n] read_nat_def digit_props)
  next
    case False
    with 1 show ?thesis
      by (simp add: decimal.simps [of n] read_nat_snoc digit_props)
  qed
qed

lemma decimal_chars: "c \<in> set (decimal n) \<Longrightarrow> c \<noteq> CHR '':'' \<and> c \<noteq> CHR ''-''"
proof (induction n rule: decimal.induct)
  case (1 n)
  show ?case
  proof (cases "n < 10")
    case True
    with 1(2) show ?thesis by (auto simp: decimal.simps [of n] digit_props)
  next
    case False
    with 1 show ?thesis
      by (auto simp: decimal.simps [of n] digit_props)
  qed
qed

lemma decimal_not_Nil: "decimal n \<noteq> []"
  by (simp add: decimal.simps [of n])

lemma read_d_decimal: "read_d (decimal n) = int n"
proof (cases "decimal n")
  case Nil
  then show ?thesis by (simp add: decimal_not_Nil)
next
  case (Cons c r)
  then have "c \<in> set (decimal n)" by simp
  then have "c \<noteq> CHR ''-''" using decimal_chars by blast
  with Cons read_nat_decimal [of n] show ?thesis by (simp add: read_d_def)
qed

lemma read_d_fmt_d: "read_d (fmt_d i) = i"
  by (simp add: fmt_d_def read_d_decimal) (simp add: read_d_def read_nat_decimal)

lemma fmt_d_no_colon: "c \<in> set (fmt_d i) \<Longrightarrow> c \<noteq> CHR '':''"
  using decimal_chars by (auto simp: fmt_d_def split: if_splits)

lemma Errorf_parts:
  "take 15 (Errorf pos m) = ''pipeline stage ''"
  "position_of (Errorf pos m) = pos"
  "cause_of (Errorf pos m) = m"
proof -
  have d: "drop 15 (Errorf pos m) = fmt_d pos @ '': '' @ m" by (simp add: Errorf_def)
  have t: "takeWhile (\<lambda>c. c \<noteq> CHR '':'') (fmt_d pos @ '': '' @ m) = fmt_d pos"
    using fmt_d_no_colon by (simp add: takeWhile_append2)
  have w: "dropWhile (\<lambda>c. c \<noteq> CHR '':'') (fmt_d pos @ '': '' @ m) = '': '' @ m"
    using fmt_d_no_colon by (simp add: dropWhile_append2)
  show "take 15 (Errorf pos m) = ''pipeline stage ''" by (simp add: Errorf_def)
  show "position_of (Errorf pos m) = pos"
    unfolding position_of_def d t by (rule read_d_fmt_d)
  show "cause_of (Errorf pos m) = m"
    unfolding cause_of_def d w by simp
qed

lemma run_join_cancelled_eq:
  "run par2 sp2 sched_join_cancelled (executeTask par2 False (Item 0)) = Some run_join_cancelled"
  by (simp add: run_join_cancelled_def sched_join_cancelled_def eval_defs)

lemma run_join_cancelled_state:
  "pc run_join_cancelled = Join 0"
  "ctx_done run_join_cancelled"
  "map loc (runners run_join_cancelled) = [Exited, Exited]"
  "done_buf run_join_cancelled = [Some (Clone (Item 0) 0), None]"
  "received (trace run_join_cancelled) = []"
  by (simp_all add: run_join_cancelled_def sched_join_cancelled_def eval_defs obs_Cons)

lemma join_step:
  assumes "pc s = Join i" "done_buf s = v # rest"
  shows "step p sp Exec s =
         Some (s\<lparr>pc := join_at p (Suc i) (failed s \<or> v = None),
                 failed := (failed s \<or> v = None),
                 done_buf := rest,
                 trace := trace s @ [(Executor, DoneRecv v)]\<rparr>)"
  using assms by (simp add: step_def exec_step_def)

lemma join_all:
  "fan_inv p s \<Longrightarrow> pc s = Join i \<Longrightarrow> length (done_buf s) = n \<Longrightarrow>
   n = length (tasks p) - i \<Longrightarrow>
   \<exists>t. run p sp (replicate n Exec) s = Some t \<and> fan_inv p t \<and>
       received (trace t) = received (trace s) @ done_buf s \<and> done_buf t = [] \<and>
       pc t = join_at p (length (tasks p)) (failed t)"
proof (induction n arbitrary: s i)
  case 0
  then show ?case by (auto simp: fan_inv_def pc_ok_def)
next
  case (Suc n)
  from Suc.prems(3) obtain v rest where b: "done_buf s = v # rest" "length rest = n"
    by (cases "done_buf s") auto
  let ?s1 = "s\<lparr>pc := join_at p (Suc i) (failed s \<or> v = None),
                 failed := (failed s \<or> v = None),
                 done_buf := rest,
                 trace := trace s @ [(Executor, DoneRecv v)]\<rparr>"
  have st: "step p sp Exec s = Some ?s1" using Suc.prems(2) b(1) by (rule join_step)
  have i1: "fan_inv p ?s1" using Suc.prems(1) st by (rule fan_inv_step)
  show ?case
  proof (cases "Suc i < length (tasks p)")
    case True
    then have pc1: "pc ?s1 = Join (Suc i)" by (simp add: join_at_def)
    have "\<exists>t. run p sp (replicate n Exec) ?s1 = Some t \<and> fan_inv p t \<and>
        received (trace t) = received (trace ?s1) @ done_buf ?s1 \<and> done_buf t = [] \<and>
        pc t = join_at p (length (tasks p)) (failed t)"
      using i1 pc1 by (rule Suc.IH) (use b(2) Suc.prems(4) in simp_all)
    then obtain t where t: "run p sp (replicate n Exec) ?s1 = Some t" "fan_inv p t"
      "received (trace t) = received (trace ?s1) @ done_buf ?s1" "done_buf t = []"
      "pc t = join_at p (length (tasks p)) (failed t)"
      by blast
    have "run p sp (replicate (Suc n) Exec) s = Some t" using st t(1) by simp
    moreover have "received (trace t) = received (trace s) @ done_buf s"
      using t(3) b(1) by simp
    ultimately show ?thesis using t(2,4,5) by blast
  next
    case False
    with Suc.prems(4) have n0: "n = 0" "Suc i = length (tasks p)" by simp_all
    have "run p sp (replicate (Suc n) Exec) s = Some ?s1" using st n0(1) by simp
    moreover have "received (trace ?s1) = received (trace s) @ done_buf s"
      using b n0(1) by simp
    moreover have "done_buf ?s1 = []" using b(2) n0(1) by simp
    moreover have "pc ?s1 = join_at p (length (tasks p)) (failed ?s1)" using n0(2) by simp
    ultimately show ?thesis using i1 by blast
  qed
qed

lemma all_exited_buffered:
  assumes "fan_inv p s" "pc s = Join i" "\<forall>r \<in> set (runners s). loc r = Exited"
  shows "length (done_buf s) = length (tasks p) - i"
proof -
  have "length (filter (\<lambda>r. loc r = Exited) (runners s)) = length (runners s)"
    using assms(3) by (induction "runners s") (simp_all add: filter_id_conv)
  moreover have "length (runners s) = length (tasks p)" "length (received (trace s)) = i"
    using assms(1,2) by (simp_all add: fan_inv_def pc_ok_def)
  moreover have "length (received (trace s)) + length (done_buf s) =
      length (filter (\<lambda>r. loc r = Exited) (runners s))"
    using assms(1) by (auto simp: fan_inv_def)
  ultimately show ?thesis by simp
qed

lemma task_error_step_facts:
  assumes "run p sp as (executeTask p c x) = Some s" and "k < length (runners s)"
  shows "(loc (runners s ! k) = AtProcess \<longrightarrow>
            (\<exists>s'. step p sp (Goroutine k) s = Some s' \<and>
               Error_sink (trace s') = Error_sink (trace s) @
                 (case snd ((tasks p ! k) (ctx_done s) (Clone x k)) of
                    None \<Rightarrow> [] | Some m \<Rightarrow> [Errorf (Position sp) m]) \<and>
               pc s' = pc s \<and> failed s' = failed s \<and> done_buf s' = done_buf s \<and>
               ctx_done s' = ctx_done s \<and> length (runners s') = length (runners s) \<and>
               (\<forall>j. j \<noteq> k \<longrightarrow> runners s' ! j = runners s ! j))) \<and>
         (loc (runners s ! k) \<noteq> AtProcess \<longrightarrow>
            Error_sink (by_actor (Runner k) (trace s)) =
              (case err (runners s ! k) of None \<Rightarrow> [] | Some m \<Rightarrow> [Errorf (Position sp) m])) \<and>
         (\<forall>j < length (runners s).
            loc (runners s ! j) \<noteq> Exited \<longrightarrow> step p sp (Goroutine j) s \<noteq> None) \<and>
         length (Error_sink (trace s)) = length (filter failed_task (runners s))"
proof -
  from reach_good [OF assms(1)]
  have g: "fan_inv p s" "log_inv sp s" "chan_inv s" and d: "data s = x"
    by (simp_all add: good_def)
  have i: "idx (runners s ! k) = k" "clone (runners s ! k) = Clone x k" "k < length (tasks p)"
    using g(1) assms(2) d runners_le [OF g(1)] by (auto simp: fan_inv_def)
  have a: "loc (runners s ! k) = AtProcess \<Longrightarrow>
      (\<exists>s'. step p sp (Goroutine k) s = Some s' \<and>
         Error_sink (trace s') = Error_sink (trace s) @
           (case snd ((tasks p ! k) (ctx_done s) (Clone x k)) of
              None \<Rightarrow> [] | Some m \<Rightarrow> [Errorf (Position sp) m]) \<and>
         pc s' = pc s \<and> failed s' = failed s \<and> done_buf s' = done_buf s \<and>
         ctx_done s' = ctx_done s \<and> length (runners s') = length (runners s) \<and>
         (\<forall>j. j \<noteq> k \<longrightarrow> runners s' ! j = runners s ! j))"
    using assms(2) i
    by (cases "(tasks p ! k) (ctx_done s) (Clone x k)")
       (auto simp: step_def runner_step_def split: option.splits)
  have b: "loc (runners s ! k) \<noteq> AtProcess \<Longrightarrow>
      Error_sink (by_actor (Runner k) (trace s)) =
        (case err (runners s ! k) of None \<Rightarrow> [] | Some m \<Rightarrow> [Errorf (Position sp) m])"
    using g(2) assms(2) by (simp add: Error_sink_map log_inv_def error_val_runner_log)
  have e: "\<forall>j < length (runners s).
      loc (runners s ! j) \<noteq> Exited \<longrightarrow> step p sp (Goroutine j) s \<noteq> None"
    using runner_enabled [OF g(1)] by (simp add: step_def)
  have n: "length (Error_sink (trace s)) = length (filter failed_task (runners s))"
    using g(3) by (simp add: chan_inv_def)
  from a b e n show ?thesis by blast
qed

lemma join_invariants:
  assumes "run p sp as (executeTask p c x) = Some s"
  shows "done_cap s = length (tasks p) \<and> length (done_buf s) \<le> done_cap s \<and>
         (\<forall>k < length (runners s). loc (runners s ! k) = AtSend \<longrightarrow>
            length (done_buf s) < done_cap s \<and> step p sp (Goroutine k) s \<noteq> None) \<and>
         (\<forall>i. pc s = Join i \<longrightarrow>
            length (runners s) = length (tasks p) \<and> length (received (trace s)) = i \<and>
            i < length (tasks p) \<and> step p sp ExecDone s = None) \<and>
         (pc s = PublishOrig \<or> pc s = MarkOrig \<or> pc s = Forward \<or> pc s = Returned Dropped \<or>
          pc s = Returned Forwarded \<or> pc s = Returned ForwardAbandoned \<longrightarrow>
            length (runners s) = length (tasks p) \<and>
            length (received (trace s)) = length (tasks p) \<and>
            failed s = (None \<in> set (received (trace s))))"
proof -
  from reach_good [OF assms] have g: "fan_inv p s" by (simp add: good_def)
  have a: "done_cap s = length (tasks p)" using g by (simp add: fan_inv_def)
  have b: "length (done_buf s) \<le> done_cap s" using g by (rule done_buf_le)
  have e: "\<forall>k < length (runners s). loc (runners s ! k) = AtSend \<longrightarrow>
      length (done_buf s) < done_cap s \<and> step p sp (Goroutine k) s \<noteq> None"
    using room_in_done [OF g] runner_enabled [OF g] by (simp add: step_def)
  have j: "\<forall>i. pc s = Join i \<longrightarrow>
      length (runners s) = length (tasks p) \<and> length (received (trace s)) = i \<and>
      i < length (tasks p) \<and> step p sp ExecDone s = None"
    using g by (auto simp: fan_inv_def pc_ok_def step_def exec_done_def)
  have r: "pc s = PublishOrig \<or> pc s = MarkOrig \<or> pc s = Forward \<or> pc s = Returned Dropped \<or>
      pc s = Returned Forwarded \<or> pc s = Returned ForwardAbandoned \<longrightarrow>
      length (runners s) = length (tasks p) \<and>
      length (received (trace s)) = length (tasks p) \<and>
      failed s = (None \<in> set (received (trace s)))"
    using g by (auto simp: fan_inv_def pc_ok_def)
  from a b e j r show ?thesis by blast
qed

section \<open>Properties\<close>

text \<open>
  C10. Called with no task, \<open>Parallel\<close> returns nil; called with at least one task, it returns
  a stage whose \<open>ID()\<close> is the string it was given.
\<close>

theorem Parallel_nil_or_ID:
  "Parallel ident [] = None \<and>
   Parallel ident (t # ts) = Some \<lparr>id_p = ident, tasks = t # ts\<rparr> \<and>
   map_option ID (Parallel ident (t # ts)) = Some ident"
  by (simp add: Parallel_def ID_def)

text \<open>
  C1 (as amended). The original item is sent on the Output channel exactly when the executor
  returns through the send branch of its last select, and that select is reached exactly
  when all N values received from the completion-signal channel are non-nil: the item is
  forwarded if and only if all N outcomes are non-nil and the last select takes the send
  rather than the cancellation. On any nil outcome the item is not forwarded.
\<close>

theorem forwarded_iff_all_succeeded_and_sent:
  assumes "run p sp as (executeTask p c x) = Some s"
  shows "Output_ch (trace s) = (if pc s = Returned Forwarded then [x] else []) \<and>
         (pc s = Returned Forwarded \<longrightarrow>
            length (received (trace s)) = length (tasks p) \<and> None \<notin> set (received (trace s))) \<and>
         (length (received (trace s)) = length (tasks p) \<and> None \<notin> set (received (trace s)) \<longrightarrow>
            pc s = Forward \<or> pc s = Returned Forwarded \<or> pc s = Returned ForwardAbandoned) \<and>
         (None \<in> set (received (trace s)) \<longrightarrow> Output_ch (trace s) = []) \<and>
         (pc s = Forward \<longrightarrow>
            map_option (\<lambda>s'. (pc s', Output_ch (trace s'))) (step p sp Exec s) =
            Some (Returned Forwarded, [x]))"
proof -
  from reach_good [OF assms] have g: "fan_inv p s" "chan_inv s" and d: "data s = x"
    by (simp_all add: good_def)
  have out: "Output_ch (trace s) = (if pc s = Returned Forwarded then [x] else [])"
    using g(2) d by (simp add: chan_inv_def)
  have a: "pc s = Returned Forwarded \<Longrightarrow>
      length (received (trace s)) = length (tasks p) \<and> None \<notin> set (received (trace s))"
    using pc_forward_iff [OF g(1)] by simp
  have b: "length (received (trace s)) = length (tasks p) \<and> None \<notin> set (received (trace s)) \<Longrightarrow>
      pc s = Forward \<or> pc s = Returned Forwarded \<or> pc s = Returned ForwardAbandoned"
    using pc_forward_iff [OF g(1)] by (cases "pc s" rule: pass_path.cases) auto
  have c: "None \<in> set (received (trace s)) \<Longrightarrow> Output_ch (trace s) = []"
    using a out by auto
  have e: "pc s = Forward \<Longrightarrow>
      map_option (\<lambda>s'. (pc s', Output_ch (trace s'))) (step p sp Exec s) =
      Some (Returned Forwarded, [x])"
    using out d by (simp add: step_def exec_step_def)
  from out a b c e show ?thesis by blast
qed

theorem forwarded_iff_all_succeeded_and_sent_witness:
  "pc run_forwarded = Returned Forwarded \<and>
   Output_ch (trace run_forwarded) = [Item 0] \<and>
   length (received (trace run_forwarded)) = length (tasks par1) \<and>
   None \<notin> set (received (trace run_forwarded))"
  using forwarded_iff_all_succeeded_and_sent [OF run_forwarded_eq]
  by (simp add: run_forwarded_state(1))

text \<open>
  C1 as stated fails: the single task succeeds, the one value received is non-nil, the
  context is cancelled before the send on Output, and the item is not forwarded.
\<close>

theorem all_succeeded_not_forwarded_counterexample:
  "length (tasks par1) = 1 \<and>
   received (trace run_forward_cancelled) = [Some (Clone (Item 0) 0)] \<and>
   pc run_forward_cancelled = Returned ForwardAbandoned \<and>
   Output_ch (trace run_forward_cancelled) = [] \<and>
   \<not> (Item 0 \<in> set (Output_ch (trace run_forward_cancelled)) \<longleftrightarrow>
      length (received (trace run_forward_cancelled)) = length (tasks par1) \<and>
      None \<notin> set (received (trace run_forward_cancelled)))"
  by (simp add: run_forward_cancelled_state obs_Cons par1_def)

text \<open>
  C2 (as amended). When the fan-out resolves on the failure path, the original item is
  marked processed exactly once and announced on the processed-notification channel exactly
  once, and that channel has received exactly N+1 announcements (N clones and the original).
  When it resolves on the success path (forwarded, or the forward abandoned), the executor
  neither marks nor announces the original, and the channel has received exactly the N
  announcements of the clones. Once the fan-out has resolved, no step adds to the trace.
\<close>

theorem original_processed_once_on_failure_only:
  assumes "run p sp as (executeTask p c x) = Some s"
  shows "(pc s = Returned Dropped \<longrightarrow>
            count_list (marked (trace s)) x = 1 \<and>
            count_list (ProcessedData_ch (trace s)) x = 1 \<and>
            length (ProcessedData_ch (trace s)) = length (tasks p) + 1) \<and>
         (pc s = Returned Forwarded \<or> pc s = Returned ForwardAbandoned \<longrightarrow>
            count_list (marked (trace s)) x = 0 \<and>
            count_list (ProcessedData_ch (trace s)) x = 0 \<and>
            length (ProcessedData_ch (trace s)) = length (tasks p)) \<and>
         (returned (pc s) \<and> pc s \<noteq> Returned Abandoned \<longrightarrow>
            (\<forall>a s'. step p sp a s = Some s' \<longrightarrow> trace s' = trace s))"
proof -
  from reach_good [OF assms] have g: "fan_inv p s" "chan_inv s" and d: "data s = x"
    by (simp_all add: good_def)
  have n: "returned (pc s) \<Longrightarrow> pc s \<noteq> Returned Abandoned \<Longrightarrow>
      length (filter (\<lambda>r. published (loc r)) (runners s)) = length (tasks p)"
  proof -
    assume r: "returned (pc s)" "pc s \<noteq> Returned Abandoned"
    with g(1) have "length (received (trace s)) = length (tasks p)"
      by (simp add: resolved_received)
    from all_exited [OF g(1) this] published_all [of "runners s"] show ?thesis by simp
  qed
  have a: "pc s = Returned Dropped \<Longrightarrow>
      count_list (marked (trace s)) x = 1 \<and>
      count_list (ProcessedData_ch (trace s)) x = 1 \<and>
      length (ProcessedData_ch (trace s)) = length (tasks p) + 1"
    using g(2) d n by (simp add: chan_inv_def orig_published_def orig_marked_def)
  have b: "pc s = Returned Forwarded \<or> pc s = Returned ForwardAbandoned \<Longrightarrow>
      count_list (marked (trace s)) x = 0 \<and>
      count_list (ProcessedData_ch (trace s)) x = 0 \<and>
      length (ProcessedData_ch (trace s)) = length (tasks p)"
    using g(2) d n by (auto simp: chan_inv_def orig_published_def orig_marked_def)
  have e: "returned (pc s) \<and> pc s \<noteq> Returned Abandoned \<Longrightarrow>
      (\<forall>a s'. step p sp a s = Some s' \<longrightarrow> trace s' = trace s)"
    using resolved_final [OF g(1)] by blast
  from a b e show ?thesis by blast
qed

theorem original_processed_once_on_failure_only_witness:
  "pc run_dropped = Returned Dropped \<and>
   count_list (marked (trace run_dropped)) (Item 0) = 1 \<and>
   count_list (ProcessedData_ch (trace run_dropped)) (Item 0) = 1 \<and>
   length (ProcessedData_ch (trace run_dropped)) = length (tasks par2) + 1"
  using original_processed_once_on_failure_only [OF run_dropped_eq]
  by (simp add: run_dropped_state(1))

text \<open>
  C2 as stated fails: the single task succeeds and the item is forwarded, yet the
  processed-notification channel holds one announcement (the clone), not N+1 = 2, and
  \<open>MarkAsProcessed()\<close> was never called on the original.
\<close>

theorem original_not_processed_on_success_counterexample:
  "length (tasks par1) = 1 \<and>
   received (trace run_forwarded) = [Some (Clone (Item 0) 0)] \<and>
   pc run_forwarded = Returned Forwarded \<and>
   ProcessedData_ch (trace run_forwarded) = [Clone (Item 0) 0] \<and>
   length (ProcessedData_ch (trace run_forwarded)) \<noteq> length (tasks par1) + 1 \<and>
   count_list (ProcessedData_ch (trace run_forwarded)) (Item 0) = 0 \<and>
   count_list (marked (trace run_forwarded)) (Item 0) = 0"
  by (simp add: run_forwarded_state obs_Cons par1_def)

text \<open>
  C3. If any value received on the completion-signal channel is nil, nothing is sent on
  Output; once all N values are received the executor is on its failure path, where it
  publishes the original item itself on the processed-notification channel, then marks it
  processed, and returns.
\<close>

theorem failed_fan_out_drops_original:
  assumes "run p sp as (executeTask p c x) = Some s"
    and "None \<in> set (received (trace s))"
  shows "Output_ch (trace s) = [] \<and>
         (length (received (trace s)) = length (tasks p) \<longrightarrow>
            pc s = PublishOrig \<or> pc s = MarkOrig \<or> pc s = Returned Dropped) \<and>
         (pc s = PublishOrig \<longrightarrow>
            map_option (\<lambda>t. (pc t, trace t)) (run p sp [Exec, Exec] s) =
            Some (Returned Dropped,
                  trace s @ [(Executor, ProcessedData x), (Executor, MarkAsProcessed x)])) \<and>
         (pc s = Returned Dropped \<longrightarrow>
            map snd (by_actor Executor (trace s)) =
              map (\<lambda>k. NewData (Clone x k)) [0..<length (tasks p)] @
              map DoneRecv (received (trace s)) @ [ProcessedData x, MarkAsProcessed x])"
proof -
  from reach_good [OF assms(1)] have g: "fan_inv p s" "chan_inv s" "log_inv sp s"
    and d: "data s = x"
    by (simp_all add: good_def)
  have f: "failed s" using g(1) assms(2) by (simp add: fan_inv_def)
  then have np: "\<not> pass_path (pc s)" using g(1) by (auto simp: fan_inv_def pc_ok_def)
  then have out: "Output_ch (trace s) = []" using g(2) by (auto simp: chan_inv_def)
  have a: "length (received (trace s)) = length (tasks p) \<Longrightarrow>
      pc s = PublishOrig \<or> pc s = MarkOrig \<or> pc s = Returned Dropped"
    using pc_fail_iff [OF g(1)] assms(2) by (cases "pc s" rule: fail_path.cases) auto
  have b: "pc s = PublishOrig \<Longrightarrow>
      map_option (\<lambda>t. (pc t, trace t)) (run p sp [Exec, Exec] s) =
      Some (Returned Dropped,
            trace s @ [(Executor, ProcessedData x), (Executor, MarkAsProcessed x)])"
    using d by (simp add: step_def exec_step_def)
  have e: "pc s = Returned Dropped \<Longrightarrow>
      map snd (by_actor Executor (trace s)) =
        map (\<lambda>k. NewData (Clone x k)) [0..<length (tasks p)] @
        map DoneRecv (received (trace s)) @ [ProcessedData x, MarkAsProcessed x]"
    using g(1,3) d by (simp add: log_inv_def exec_log_def fan_inv_def pc_ok_def)
  from out a b e show ?thesis by blast
qed

theorem failed_fan_out_drops_original_witness:
  "None \<in> set (received (trace run_dropped)) \<and>
   pc run_dropped = Returned Dropped \<and>
   Output_ch (trace run_dropped) = [] \<and>
   map snd (by_actor Executor (trace run_dropped)) =
     [NewData (Clone (Item 0) 0), NewData (Clone (Item 0) 1),
      DoneRecv (Some (Clone (Item 0) 0)), DoneRecv None,
      ProcessedData (Item 0), MarkAsProcessed (Item 0)]"
proof -
  have n: "None \<in> set (received (trace run_dropped))"
    by (simp add: run_dropped_state(2) obs_Cons)
  from failed_fan_out_drops_original [OF run_dropped_eq n] n show ?thesis
    by (simp add: run_dropped_state by_actor_Cons)
qed

text \<open>
  C4. What the runner of task \<open>k\<close> has done is, at every moment, a prefix of: the error
  append (only if \<open>Process\<close> returned an error), the publication of its clone on the
  processed-notification channel, the marking of its clone, and the send of the item that
  \<open>Process\<close> returned (nil or not) on the completion-signal channel; each happens once, in
  this order, whether the task succeeded or failed. A runner that has not finished can always
  make its next step, and each step does what its place says: after \<open>Process\<close> the runner
  holds what the task returned, the next step publishes the clone, the next marks it, the
  last sends the returned item on the completion-signal channel and the runner exits. From
  its start, four steps of the runner append exactly these events to the trace, whatever
  the task returned and whether or not the context is cancelled.
\<close>

theorem runner_publishes_marks_sends_in_order:
  assumes "run p sp as (executeTask p c x) = Some s" and "k < length (runners s)"
  shows "idx (runners s ! k) = k \<and> clone (runners s ! k) = Clone x k \<and>
         map snd (by_actor (Runner k) (trace s)) = runner_log sp (runners s ! k) \<and>
         (loc (runners s ! k) \<noteq> AtProcess \<longrightarrow>
            (\<exists>b. (tasks p ! k) b (Clone x k) = (ret (runners s ! k), err (runners s ! k)))) \<and>
         (loc (runners s ! k) = Exited \<longrightarrow>
            map snd (by_actor (Runner k) (trace s)) =
              err_log sp (err (runners s ! k)) @
              [ProcessedData (Clone x k), MarkAsProcessed (Clone x k),
               DoneSend (ret (runners s ! k))]) \<and>
         (loc (runners s ! k) \<noteq> Exited \<longrightarrow> step p sp (Goroutine k) s \<noteq> None) \<and>
         (loc (runners s ! k) = AtProcess \<longrightarrow>
            map_option (\<lambda>t. (loc (runners t ! k), ret (runners t ! k), err (runners t ! k),
                              done_buf t, trace t))
              (step p sp (Goroutine k) s) =
            Some (AtPublish,
                  fst ((tasks p ! k) (ctx_done s) (Clone x k)),
                  snd ((tasks p ! k) (ctx_done s) (Clone x k)),
                  done_buf s,
                  trace s @ map (Pair (Runner k))
                    (err_log sp (snd ((tasks p ! k) (ctx_done s) (Clone x k)))))) \<and>
         (loc (runners s ! k) = AtPublish \<longrightarrow>
            map_option (\<lambda>t. (runners t ! k, done_buf t, trace t)) (step p sp (Goroutine k) s) =
            Some ((runners s ! k)\<lparr>loc := AtMark\<rparr>, done_buf s,
                  trace s @ [(Runner k, ProcessedData (Clone x k))])) \<and>
         (loc (runners s ! k) = AtMark \<longrightarrow>
            map_option (\<lambda>t. (runners t ! k, done_buf t, trace t)) (step p sp (Goroutine k) s) =
            Some ((runners s ! k)\<lparr>loc := AtSend\<rparr>, done_buf s,
                  trace s @ [(Runner k, MarkAsProcessed (Clone x k))])) \<and>
         (loc (runners s ! k) = AtSend \<longrightarrow>
            map_option (\<lambda>t. (runners t ! k, done_buf t, trace t)) (step p sp (Goroutine k) s) =
            Some ((runners s ! k)\<lparr>loc := Exited\<rparr>, done_buf s @ [ret (runners s ! k)],
                  trace s @ [(Runner k, DoneSend (ret (runners s ! k)))])) \<and>
         (loc (runners s ! k) = AtProcess \<longrightarrow>
            map_option (\<lambda>t. (loc (runners t ! k), done_buf t, trace t))
              (run p sp [Goroutine k, Goroutine k, Goroutine k, Goroutine k] s) =
            Some (Exited,
                  done_buf s @ [fst ((tasks p ! k) (ctx_done s) (Clone x k))],
                  trace s @ map (Pair (Runner k))
                    (err_log sp (snd ((tasks p ! k) (ctx_done s) (Clone x k))) @
                     [ProcessedData (Clone x k), MarkAsProcessed (Clone x k),
                      DoneSend (fst ((tasks p ! k) (ctx_done s) (Clone x k)))])))"
proof -
  from reach_good [OF assms(1)]
  have g: "fan_inv p s" "log_inv sp s" "result_inv p s" and d: "data s = x"
    by (simp_all add: good_def)
  have i: "idx (runners s ! k) = k" "clone (runners s ! k) = Clone x k"
    using g(1) assms(2) d by (auto simp: fan_inv_def)
  have l: "map snd (by_actor (Runner k) (trace s)) = runner_log sp (runners s ! k)"
    using g(2) assms(2) by (simp add: log_inv_def)
  have r: "loc (runners s ! k) \<noteq> AtProcess \<longrightarrow>
      (\<exists>b. (tasks p ! k) b (Clone x k) = (ret (runners s ! k), err (runners s ! k)))"
    using g(3) assms(2) d by (simp add: result_inv_def)
  have e: "loc (runners s ! k) = Exited \<longrightarrow>
      map snd (by_actor (Runner k) (trace s)) =
        err_log sp (err (runners s ! k)) @
        [ProcessedData (Clone x k), MarkAsProcessed (Clone x k), DoneSend (ret (runners s ! k))]"
    using l i by (simp add: runner_log_def)
  have n: "loc (runners s ! k) \<noteq> Exited \<longrightarrow> step p sp (Goroutine k) s \<noteq> None"
    using runner_enabled [OF g(1) assms(2)] by (simp add: step_def)
  have kt: "k < length (tasks p)" using runner_facts(3) [OF g(1) assms(2)] .
  have pr: "(tasks p ! k) (ctx_done s) (Clone (data s) k) =
      (fst ((tasks p ! k) (ctx_done s) (Clone x k)), snd ((tasks p ! k) (ctx_done s) (Clone x k)))"
    using d by simp
  have s1: "loc (runners s ! k) = AtProcess \<longrightarrow>
      map_option (\<lambda>t. (loc (runners t ! k), ret (runners t ! k), err (runners t ! k),
                        done_buf t, trace t))
        (step p sp (Goroutine k) s) =
      Some (AtPublish,
            fst ((tasks p ! k) (ctx_done s) (Clone x k)),
            snd ((tasks p ! k) (ctx_done s) (Clone x k)),
            done_buf s,
            trace s @ map (Pair (Runner k))
              (err_log sp (snd ((tasks p ! k) (ctx_done s) (Clone x k)))))"
    using assms(2) i kt d
    by (auto simp: step_def runner_step_def err_log_def split: prod.splits option.splits)
  have s2: "loc (runners s ! k) = AtPublish \<longrightarrow>
      map_option (\<lambda>t. (runners t ! k, done_buf t, trace t)) (step p sp (Goroutine k) s) =
      Some ((runners s ! k)\<lparr>loc := AtMark\<rparr>, done_buf s,
            trace s @ [(Runner k, ProcessedData (Clone x k))])"
    using assms(2) i by (simp add: step_def runner_step_def)
  have s3: "loc (runners s ! k) = AtMark \<longrightarrow>
      map_option (\<lambda>t. (runners t ! k, done_buf t, trace t)) (step p sp (Goroutine k) s) =
      Some ((runners s ! k)\<lparr>loc := AtSend\<rparr>, done_buf s,
            trace s @ [(Runner k, MarkAsProcessed (Clone x k))])"
    using assms(2) i by (simp add: step_def runner_step_def)
  have s4: "loc (runners s ! k) = AtSend \<longrightarrow>
      map_option (\<lambda>t. (runners t ! k, done_buf t, trace t)) (step p sp (Goroutine k) s) =
      Some ((runners s ! k)\<lparr>loc := Exited\<rparr>, done_buf s @ [ret (runners s ! k)],
            trace s @ [(Runner k, DoneSend (ret (runners s ! k)))])"
    using assms(2) i room_in_done [OF g(1) assms(2)] by (simp add: step_def runner_step_def)
  have s5: "loc (runners s ! k) = AtProcess \<longrightarrow>
      map_option (\<lambda>t. (loc (runners t ! k), done_buf t, trace t))
        (run p sp [Goroutine k, Goroutine k, Goroutine k, Goroutine k] s) =
      Some (Exited,
            done_buf s @ [fst ((tasks p ! k) (ctx_done s) (Clone x k))],
            trace s @ map (Pair (Runner k))
              (err_log sp (snd ((tasks p ! k) (ctx_done s) (Clone x k))) @
               [ProcessedData (Clone x k), MarkAsProcessed (Clone x k),
                DoneSend (fst ((tasks p ! k) (ctx_done s) (Clone x k)))]))"
  proof
    assume a: "loc (runners s ! k) = AtProcess"
    show "map_option (\<lambda>t. (loc (runners t ! k), done_buf t, trace t))
        (run p sp [Goroutine k, Goroutine k, Goroutine k, Goroutine k] s) =
      Some (Exited,
            done_buf s @ [fst ((tasks p ! k) (ctx_done s) (Clone x k))],
            trace s @ map (Pair (Runner k))
              (err_log sp (snd ((tasks p ! k) (ctx_done s) (Clone x k))) @
               [ProcessedData (Clone x k), MarkAsProcessed (Clone x k),
                DoneSend (fst ((tasks p ! k) (ctx_done s) (Clone x k)))]))"
      by (simp only: runner_runs_to_exit [OF g(1) assms(2) a pr, of sp]) (use assms(2) d in simp)
  qed
  from i l r e n s1 s2 s3 s4 s5 show ?thesis by blast
qed

theorem runner_publishes_marks_sends_in_order_witness:
  "Suc 0 < length (runners run_dispatched) \<and>
   loc (runners run_dispatched ! Suc 0) = AtProcess \<and>
   map_option (\<lambda>t. (loc (runners t ! Suc 0), done_buf t, trace t))
     (run par2 sp2 [Goroutine (Suc 0), Goroutine (Suc 0), Goroutine (Suc 0), Goroutine (Suc 0)]
        run_dispatched) =
   Some (Exited, [None],
         [(Executor, NewData (Clone (Item 0) 0)), (Executor, NewData (Clone (Item 0) (Suc 0))),
          (Runner (Suc 0), ErrorAppend ''pipeline stage 2: boom''),
          (Runner (Suc 0), ProcessedData (Clone (Item 0) (Suc 0))),
          (Runner (Suc 0), MarkAsProcessed (Clone (Item 0) (Suc 0))),
          (Runner (Suc 0), DoneSend None)]) \<and>
   loc (runners run_dropped ! Suc 0) = Exited \<and>
   map snd (by_actor (Runner (Suc 0)) (trace run_dropped)) =
     [ErrorAppend ''pipeline stage 2: boom'',
      ProcessedData (Clone (Item 0) (Suc 0)), MarkAsProcessed (Clone (Item 0) (Suc 0)),
      DoneSend None]"
proof -
  have k: "Suc 0 < length (runners run_dropped)"
    using arg_cong [OF run_dropped_state(3), of length] by simp
  have l: "loc (runners run_dropped ! Suc 0) = Exited"
    using k arg_cong [OF run_dropped_state(3), of "\<lambda>xs. xs ! Suc 0"] by simp
  have e: "err (runners run_dropped ! Suc 0) = Some ''boom''"
    using k arg_cong [OF run_dropped_state(4), of "\<lambda>xs. xs ! Suc 0"] by simp
  have r: "ret (runners run_dropped ! Suc 0) = None"
    using k arg_cong [OF run_dropped_state(5), of "\<lambda>xs. xs ! Suc 0"] by simp
  from runner_publishes_marks_sends_in_order [OF run_dropped_eq k]
  have "loc (runners run_dropped ! Suc 0) = Exited \<longrightarrow>
      map snd (by_actor (Runner (Suc 0)) (trace run_dropped)) =
        err_log sp2 (err (runners run_dropped ! Suc 0)) @
        [ProcessedData (Clone (Item 0) (Suc 0)), MarkAsProcessed (Clone (Item 0) (Suc 0)),
         DoneSend (ret (runners run_dropped ! Suc 0))]"
    by blast
  with k l e r have old: "map snd (by_actor (Runner (Suc 0)) (trace run_dropped)) =
     [ErrorAppend ''pipeline stage 2: boom'',
      ProcessedData (Clone (Item 0) (Suc 0)), MarkAsProcessed (Clone (Item 0) (Suc 0)),
      DoneSend None]"
    by (simp add: err_log_def sp2_def Errorf_2_boom)
  have k': "Suc 0 < length (runners run_dispatched)"
    using arg_cong [OF run_dispatched_state(1), of length] by simp
  have l': "loc (runners run_dispatched ! Suc 0) = AtProcess"
    using k' arg_cong [OF run_dispatched_state(1), of "\<lambda>xs. xs ! Suc 0"] by simp
  have tk: "(tasks par2 ! Suc 0) (ctx_done run_dispatched) (Clone (Item 0) (Suc 0)) =
      (None, Some ''boom'')"
    by (simp add: par2_def boom_def)
  from runner_publishes_marks_sends_in_order [OF run_dispatched_eq k']
  have "loc (runners run_dispatched ! Suc 0) = AtProcess \<longrightarrow>
      map_option (\<lambda>t. (loc (runners t ! Suc 0), done_buf t, trace t))
        (run par2 sp2 [Goroutine (Suc 0), Goroutine (Suc 0), Goroutine (Suc 0), Goroutine (Suc 0)]
           run_dispatched) =
      Some (Exited,
            done_buf run_dispatched @
              [fst ((tasks par2 ! Suc 0) (ctx_done run_dispatched) (Clone (Item 0) (Suc 0)))],
            trace run_dispatched @ map (Pair (Runner (Suc 0)))
              (err_log sp2
                 (snd ((tasks par2 ! Suc 0) (ctx_done run_dispatched) (Clone (Item 0) (Suc 0)))) @
               [ProcessedData (Clone (Item 0) (Suc 0)), MarkAsProcessed (Clone (Item 0) (Suc 0)),
                DoneSend
                  (fst ((tasks par2 ! Suc 0) (ctx_done run_dispatched)
                     (Clone (Item 0) (Suc 0))))]))"
    by blast
  with l' have new: "map_option (\<lambda>t. (loc (runners t ! Suc 0), done_buf t, trace t))
     (run par2 sp2 [Goroutine (Suc 0), Goroutine (Suc 0), Goroutine (Suc 0), Goroutine (Suc 0)]
        run_dispatched) =
   Some (Exited, [None],
         [(Executor, NewData (Clone (Item 0) 0)), (Executor, NewData (Clone (Item 0) (Suc 0))),
          (Runner (Suc 0), ErrorAppend ''pipeline stage 2: boom''),
          (Runner (Suc 0), ProcessedData (Clone (Item 0) (Suc 0))),
          (Runner (Suc 0), MarkAsProcessed (Clone (Item 0) (Suc 0))),
          (Runner (Suc 0), DoneSend None)])"
    by (simp only: tk fst_conv snd_conv)
       (simp add: run_dispatched_state err_log_def sp2_def Errorf_2_boom)
  from k' l' new l old show ?thesis by blast
qed

text \<open>
  C5. The \<open>Process\<close> step of runner \<open>k\<close> appends to the error sink exactly the error that
  \<open>Process\<close> returned, formatted with the stage's position, and nothing when it returned no
  error; it changes neither the executor, nor the completion-signal channel, nor any other
  runner. Afterwards the sink entries of runner \<open>k\<close> are this one entry. Every other runner
  that has not finished can still make its next step. The entry is the text
  \<open>pipeline stage\<close>, the position in decimal, a colon, a blank and the error's text; the
  position and the error's text can be read back from it.
\<close>

theorem task_error_appended_once_others_unaffected:
  assumes "run p sp as (executeTask p c x) = Some s" and "k < length (runners s)"
  shows "(loc (runners s ! k) = AtProcess \<longrightarrow>
            (\<exists>s'. step p sp (Goroutine k) s = Some s' \<and>
               Error_sink (trace s') = Error_sink (trace s) @
                 (case snd ((tasks p ! k) (ctx_done s) (Clone x k)) of
                    None \<Rightarrow> [] | Some m \<Rightarrow> [Errorf (Position sp) m]) \<and>
               pc s' = pc s \<and> failed s' = failed s \<and> done_buf s' = done_buf s \<and>
               ctx_done s' = ctx_done s \<and> length (runners s') = length (runners s) \<and>
               (\<forall>j. j \<noteq> k \<longrightarrow> runners s' ! j = runners s ! j))) \<and>
         (loc (runners s ! k) \<noteq> AtProcess \<longrightarrow>
            Error_sink (by_actor (Runner k) (trace s)) =
              (case err (runners s ! k) of None \<Rightarrow> [] | Some m \<Rightarrow> [Errorf (Position sp) m])) \<and>
         (\<forall>j < length (runners s).
            loc (runners s ! j) \<noteq> Exited \<longrightarrow> step p sp (Goroutine j) s \<noteq> None) \<and>
         length (Error_sink (trace s)) = length (filter failed_task (runners s)) \<and>
         (loc (runners s ! k) = AtProcess \<longrightarrow>
            map_option (\<lambda>t. Error_sink (trace t)) (step p sp (Goroutine k) s) =
            Some (Error_sink (trace s) @
                  (case snd ((tasks p ! k) (ctx_done s) (Clone x k)) of
                     None \<Rightarrow> []
                   | Some m \<Rightarrow> [''pipeline stage '' @ fmt_d (Position sp) @ '': '' @ m]))) \<and>
         (loc (runners s ! k) \<noteq> AtProcess \<longrightarrow>
            Error_sink (by_actor (Runner k) (trace s)) =
              (case err (runners s ! k) of
                 None \<Rightarrow> []
               | Some m \<Rightarrow> [''pipeline stage '' @ fmt_d (Position sp) @ '': '' @ m]) \<and>
            map position_of (Error_sink (by_actor (Runner k) (trace s))) =
              (case err (runners s ! k) of None \<Rightarrow> [] | Some m \<Rightarrow> [Position sp]) \<and>
            map cause_of (Error_sink (by_actor (Runner k) (trace s))) =
              (case err (runners s ! k) of None \<Rightarrow> [] | Some m \<Rightarrow> [m]))"
proof -
  note old = task_error_step_facts [OF assms]
  have a: "loc (runners s ! k) = AtProcess \<longrightarrow>
      map_option (\<lambda>t. Error_sink (trace t)) (step p sp (Goroutine k) s) =
      Some (Error_sink (trace s) @
            (case snd ((tasks p ! k) (ctx_done s) (Clone x k)) of
               None \<Rightarrow> []
             | Some m \<Rightarrow> [''pipeline stage '' @ fmt_d (Position sp) @ '': '' @ m]))"
  proof
    assume "loc (runners s ! k) = AtProcess"
    with old obtain s' where "step p sp (Goroutine k) s = Some s'"
      "Error_sink (trace s') = Error_sink (trace s) @
         (case snd ((tasks p ! k) (ctx_done s) (Clone x k)) of
            None \<Rightarrow> [] | Some m \<Rightarrow> [Errorf (Position sp) m])"
      by blast
    then show "map_option (\<lambda>t. Error_sink (trace t)) (step p sp (Goroutine k) s) =
      Some (Error_sink (trace s) @
            (case snd ((tasks p ! k) (ctx_done s) (Clone x k)) of
               None \<Rightarrow> []
             | Some m \<Rightarrow> [''pipeline stage '' @ fmt_d (Position sp) @ '': '' @ m]))"
      by (simp add: Errorf_def split: option.splits)
  qed
  have b: "loc (runners s ! k) \<noteq> AtProcess \<longrightarrow>
      Error_sink (by_actor (Runner k) (trace s)) =
        (case err (runners s ! k) of None \<Rightarrow> [] | Some m \<Rightarrow> [Errorf (Position sp) m])"
    using old by blast
  have b1: "loc (runners s ! k) \<noteq> AtProcess \<longrightarrow>
      Error_sink (by_actor (Runner k) (trace s)) =
        (case err (runners s ! k) of
           None \<Rightarrow> []
         | Some m \<Rightarrow> [''pipeline stage '' @ fmt_d (Position sp) @ '': '' @ m])"
    using b by (simp add: Errorf_def split: option.splits)
  have b2: "loc (runners s ! k) \<noteq> AtProcess \<longrightarrow>
      map position_of (Error_sink (by_actor (Runner k) (trace s))) =
        (case err (runners s ! k) of None \<Rightarrow> [] | Some m \<Rightarrow> [Position sp])"
    using b by (simp add: Errorf_parts split: option.splits)
  have b3: "loc (runners s ! k) \<noteq> AtProcess \<longrightarrow>
      map cause_of (Error_sink (by_actor (Runner k) (trace s))) =
        (case err (runners s ! k) of None \<Rightarrow> [] | Some m \<Rightarrow> [m])"
    using b by (simp add: Errorf_parts split: option.splits)
  from old a b1 b2 b3 show ?thesis by blast
qed

theorem task_error_appended_once_others_unaffected_witness:
  "Suc 0 < length (runners run_dropped) \<and>
   Error_sink (by_actor (Runner (Suc 0)) (trace run_dropped)) = [''pipeline stage 2: boom''] \<and>
   map position_of (Error_sink (by_actor (Runner (Suc 0)) (trace run_dropped))) = [2] \<and>
   map cause_of (Error_sink (by_actor (Runner (Suc 0)) (trace run_dropped))) = [''boom''] \<and>
   Error_sink (trace run_dropped) = [''pipeline stage 2: boom''] \<and>
   loc (runners run_dispatched ! Suc 0) = AtProcess \<and>
   map_option (\<lambda>t. Error_sink (trace t)) (step par2 sp2 (Goroutine (Suc 0)) run_dispatched) =
   Some [''pipeline stage 2: boom'']"
proof -
  have k: "Suc 0 < length (runners run_dropped)"
    using arg_cong [OF run_dropped_state(3), of length] by simp
  have l: "loc (runners run_dropped ! Suc 0) \<noteq> AtProcess"
    using k arg_cong [OF run_dropped_state(3), of "\<lambda>xs. xs ! Suc 0"] by simp
  have e: "err (runners run_dropped ! Suc 0) = Some ''boom''"
    using k arg_cong [OF run_dropped_state(4), of "\<lambda>xs. xs ! Suc 0"] by simp
  have t: "Error_sink (trace run_dropped) = [''pipeline stage 2: boom'']"
    by (simp add: run_dropped_state(2) obs_Cons)
  from task_error_appended_once_others_unaffected [OF run_dropped_eq k]
  have "loc (runners run_dropped ! Suc 0) \<noteq> AtProcess \<longrightarrow>
      Error_sink (by_actor (Runner (Suc 0)) (trace run_dropped)) =
        (case err (runners run_dropped ! Suc 0) of
           None \<Rightarrow> []
         | Some m \<Rightarrow> [''pipeline stage '' @ fmt_d (Position sp2) @ '': '' @ m]) \<and>
      map position_of (Error_sink (by_actor (Runner (Suc 0)) (trace run_dropped))) =
        (case err (runners run_dropped ! Suc 0) of None \<Rightarrow> [] | Some m \<Rightarrow> [Position sp2]) \<and>
      map cause_of (Error_sink (by_actor (Runner (Suc 0)) (trace run_dropped))) =
        (case err (runners run_dropped ! Suc 0) of None \<Rightarrow> [] | Some m \<Rightarrow> [m])"
    by blast
  with l have g:
    "Error_sink (by_actor (Runner (Suc 0)) (trace run_dropped)) =
       (case err (runners run_dropped ! Suc 0) of
          None \<Rightarrow> []
        | Some m \<Rightarrow> [''pipeline stage '' @ fmt_d (Position sp2) @ '': '' @ m])"
    "map position_of (Error_sink (by_actor (Runner (Suc 0)) (trace run_dropped))) =
       (case err (runners run_dropped ! Suc 0) of None \<Rightarrow> [] | Some m \<Rightarrow> [Position sp2])"
    "map cause_of (Error_sink (by_actor (Runner (Suc 0)) (trace run_dropped))) =
       (case err (runners run_dropped ! Suc 0) of None \<Rightarrow> [] | Some m \<Rightarrow> [m])"
    by blast+
  have str: "''pipeline stage '' @ fmt_d (Position sp2) @ '': '' @ ''boom'' =
      ''pipeline stage 2: boom''"
    using Errorf_2_boom by (simp add: Errorf_def sp2_def)
  have a:
    "Error_sink (by_actor (Runner (Suc 0)) (trace run_dropped)) = [''pipeline stage 2: boom'']"
    "map position_of (Error_sink (by_actor (Runner (Suc 0)) (trace run_dropped))) = [2]"
    "map cause_of (Error_sink (by_actor (Runner (Suc 0)) (trace run_dropped))) = [''boom'']"
    unfolding g e option.case str
    by (simp_all add: sp2_def Errorf_parts(2,3) [of 2 "''boom''", unfolded Errorf_2_boom])
  have k': "Suc 0 < length (runners run_dispatched)"
    using arg_cong [OF run_dispatched_state(1), of length] by simp
  have l': "loc (runners run_dispatched ! Suc 0) = AtProcess"
    using k' arg_cong [OF run_dispatched_state(1), of "\<lambda>xs. xs ! Suc 0"] by simp
  have tk: "(tasks par2 ! Suc 0) (ctx_done run_dispatched) (Clone (Item 0) (Suc 0)) =
      (None, Some ''boom'')"
    by (simp add: par2_def boom_def)
  have s0: "Error_sink (trace run_dispatched) = []"
    by (simp add: run_dispatched_state(2) obs_Cons)
  from task_error_appended_once_others_unaffected [OF run_dispatched_eq k']
  have "loc (runners run_dispatched ! Suc 0) = AtProcess \<longrightarrow>
      map_option (\<lambda>t. Error_sink (trace t)) (step par2 sp2 (Goroutine (Suc 0)) run_dispatched) =
      Some (Error_sink (trace run_dispatched) @
            (case snd ((tasks par2 ! Suc 0) (ctx_done run_dispatched) (Clone (Item 0) (Suc 0))) of
               None \<Rightarrow> []
             | Some m \<Rightarrow> [''pipeline stage '' @ fmt_d (Position sp2) @ '': '' @ m]))"
    by blast
  with l' have b:
    "map_option (\<lambda>t. Error_sink (trace t)) (step par2 sp2 (Goroutine (Suc 0)) run_dispatched) =
     Some [''pipeline stage 2: boom'']"
    unfolding tk snd_conv option.case s0 str by simp
  from k a t l' b show ?thesis by blast
qed

text \<open>
  C6. The completion-signal channel has capacity N and never holds more than N values, so a
  runner that stands at its send always has room and can make the step. While the executor
  joins, all N runners have been dispatched and the cancellation branch is not available to
  it; when it decides between forwarding and dropping it has made exactly N receives.
  A join step waits while the channel is empty and otherwise takes its first value, sets
  \<open>failed\<close> if that value is nil, and goes on to the next receive or, after the N-th, to the
  decision; cancelling the context leaves the executor in the join. Once all runners have
  exited, the remaining receives lead to the decision with the N values received, to the
  failure path if one of them is nil and to the last select otherwise.
\<close>

theorem done_capacity_and_uncancellable_join:
  assumes "run p sp as (executeTask p c x) = Some s"
  shows "done_cap s = length (tasks p) \<and> length (done_buf s) \<le> done_cap s \<and>
         (\<forall>k < length (runners s). loc (runners s ! k) = AtSend \<longrightarrow>
            length (done_buf s) < done_cap s \<and> step p sp (Goroutine k) s \<noteq> None) \<and>
         (\<forall>i. pc s = Join i \<longrightarrow>
            length (runners s) = length (tasks p) \<and> length (received (trace s)) = i \<and>
            i < length (tasks p) \<and> step p sp ExecDone s = None) \<and>
         (pc s = PublishOrig \<or> pc s = MarkOrig \<or> pc s = Forward \<or> pc s = Returned Dropped \<or>
          pc s = Returned Forwarded \<or> pc s = Returned ForwardAbandoned \<longrightarrow>
            length (runners s) = length (tasks p) \<and>
            length (received (trace s)) = length (tasks p) \<and>
            failed s = (None \<in> set (received (trace s)))) \<and>
         (\<forall>i. pc s = Join i \<and> done_buf s = [] \<longrightarrow> step p sp Exec s = None) \<and>
         (\<forall>i v rest. pc s = Join i \<and> done_buf s = v # rest \<longrightarrow>
            step p sp Exec s =
            Some (s\<lparr>pc := join_at p (Suc i) (failed s \<or> v = None),
                    failed := (failed s \<or> v = None),
                    done_buf := rest,
                    trace := trace s @ [(Executor, DoneRecv v)]\<rparr>)) \<and>
         (\<forall>i. pc s = Join i \<longrightarrow> map_option pc (step p sp Cancel s) = Some (Join i)) \<and>
         (\<forall>i. pc s = Join i \<and> (\<forall>r \<in> set (runners s). loc r = Exited) \<longrightarrow>
            length (received (trace s) @ done_buf s) = length (tasks p) \<and>
            map_option (\<lambda>t. (pc t, received (trace t), done_buf t))
              (run p sp (replicate (length (tasks p) - i) Exec) s) =
            Some (if None \<in> set (received (trace s) @ done_buf s) then PublishOrig else Forward,
                  received (trace s) @ done_buf s, []))"
proof -
  from reach_good [OF assms] have g: "fan_inv p s" by (simp add: good_def)
  note old = join_invariants [OF assms]
  have j1: "\<forall>i. pc s = Join i \<and> done_buf s = [] \<longrightarrow> step p sp Exec s = None"
    by (simp add: step_def exec_step_def)
  have j2: "\<forall>i v rest. pc s = Join i \<and> done_buf s = v # rest \<longrightarrow>
      step p sp Exec s =
      Some (s\<lparr>pc := join_at p (Suc i) (failed s \<or> v = None),
              failed := (failed s \<or> v = None),
              done_buf := rest,
              trace := trace s @ [(Executor, DoneRecv v)]\<rparr>)"
    by (simp add: step_def exec_step_def)
  have j3: "\<forall>i. pc s = Join i \<longrightarrow> map_option pc (step p sp Cancel s) = Some (Join i)"
    by (simp add: step_def)
  have j4: "\<forall>i. pc s = Join i \<and> (\<forall>r \<in> set (runners s). loc r = Exited) \<longrightarrow>
      length (received (trace s) @ done_buf s) = length (tasks p) \<and>
      map_option (\<lambda>t. (pc t, received (trace t), done_buf t))
        (run p sp (replicate (length (tasks p) - i) Exec) s) =
      Some (if None \<in> set (received (trace s) @ done_buf s) then PublishOrig else Forward,
            received (trace s) @ done_buf s, [])"
  proof (intro allI impI)
    fix i
    assume a: "pc s = Join i \<and> (\<forall>r \<in> set (runners s). loc r = Exited)"
    then have b: "length (done_buf s) = length (tasks p) - i"
      using all_exited_buffered [OF g] by blast
    have i: "length (received (trace s)) = i" "i < length (tasks p)"
      using g a by (simp_all add: fan_inv_def pc_ok_def)
    from a have pcj: "pc s = Join i" by simp
    from join_all [OF g pcj b refl, of sp]
    obtain t where t: "run p sp (replicate (length (tasks p) - i) Exec) s = Some t" "fan_inv p t"
      "received (trace t) = received (trace s) @ done_buf s" "done_buf t = []"
      "pc t = join_at p (length (tasks p)) (failed t)"
      by blast
    have f: "failed t = (None \<in> set (received (trace s) @ done_buf s))"
      using t(2,3) by (simp add: fan_inv_def)
    have n: "length (received (trace s) @ done_buf s) = length (tasks p)"
      using b i by simp
    show "length (received (trace s) @ done_buf s) = length (tasks p) \<and>
      map_option (\<lambda>t. (pc t, received (trace t), done_buf t))
        (run p sp (replicate (length (tasks p) - i) Exec) s) =
      Some (if None \<in> set (received (trace s) @ done_buf s) then PublishOrig else Forward,
            received (trace s) @ done_buf s, [])"
      using n t f by (simp add: join_at_def)
  qed
  from old j1 j2 j3 j4 show ?thesis by blast
qed

theorem done_capacity_and_uncancellable_join_witness:
  "done_cap run_joining = length (tasks par2) \<and>
   pc run_joining = Join 0 \<and>
   loc (runners run_joining ! 0) = AtSend \<and>
   length (done_buf run_joining) < done_cap run_joining \<and>
   step par2 sp2 (Goroutine 0) run_joining \<noteq> None \<and>
   step par2 sp2 ExecDone run_joining = None \<and>
   pc run_join_cancelled = Join 0 \<and>
   ctx_done run_join_cancelled \<and>
   step par2 sp2 ExecDone run_join_cancelled = None \<and>
   map_option (\<lambda>t. (pc t, received (trace t), done_buf t))
     (run par2 sp2 [Exec, Exec] run_join_cancelled) =
   Some (PublishOrig, [Some (Clone (Item 0) 0), None], [])"
proof -
  have k: "0 < length (runners run_joining)"
    using arg_cong [OF run_joining_state(2), of length] by simp
  have l: "loc (runners run_joining ! 0) = AtSend"
    using k arg_cong [OF run_joining_state(2), of "\<lambda>xs. xs ! 0"] by simp
  from done_capacity_and_uncancellable_join [OF run_joining_eq]
  have "done_cap run_joining = length (tasks par2)"
    "\<forall>k < length (runners run_joining). loc (runners run_joining ! k) = AtSend \<longrightarrow>
       length (done_buf run_joining) < done_cap run_joining \<and>
       step par2 sp2 (Goroutine k) run_joining \<noteq> None"
    "\<forall>i. pc run_joining = Join i \<longrightarrow> step par2 sp2 ExecDone run_joining = None"
    by blast+
  note q = this
  from q(2) k l have a: "length (done_buf run_joining) < done_cap run_joining \<and>
      step par2 sp2 (Goroutine 0) run_joining \<noteq> None"
    by blast
  from q(3) run_joining_state(1) have b: "step par2 sp2 ExecDone run_joining = None"
    by blast
  have ex: "\<forall>r \<in> set (runners run_join_cancelled). loc r = Exited"
    using arg_cong [OF run_join_cancelled_state(3), of set] by auto
  have rp: "replicate (length (tasks par2) - 0) Exec = [Exec, Exec]"
    by (simp add: par2_def numeral_2_eq_2)
  from done_capacity_and_uncancellable_join [OF run_join_cancelled_eq]
  have "\<forall>i. pc run_join_cancelled = Join i \<longrightarrow> step par2 sp2 ExecDone run_join_cancelled = None"
    "\<forall>i. pc run_join_cancelled = Join i \<and> (\<forall>r \<in> set (runners run_join_cancelled). loc r = Exited) \<longrightarrow>
       map_option (\<lambda>t. (pc t, received (trace t), done_buf t))
         (run par2 sp2 (replicate (length (tasks par2) - i) Exec) run_join_cancelled) =
       Some (if None \<in> set (received (trace run_join_cancelled) @ done_buf run_join_cancelled)
             then PublishOrig else Forward,
             received (trace run_join_cancelled) @ done_buf run_join_cancelled, [])"
    by blast+
  note w = this
  from w(1) run_join_cancelled_state(1)
  have c: "step par2 sp2 ExecDone run_join_cancelled = None" by blast
  from w(2) run_join_cancelled_state(1) ex
  have "map_option (\<lambda>t. (pc t, received (trace t), done_buf t))
         (run par2 sp2 (replicate (length (tasks par2) - 0) Exec) run_join_cancelled) =
       Some (if None \<in> set (received (trace run_join_cancelled) @ done_buf run_join_cancelled)
             then PublishOrig else Forward,
             received (trace run_join_cancelled) @ done_buf run_join_cancelled, [])"
    by blast
  then have d: "map_option (\<lambda>t. (pc t, received (trace t), done_buf t))
     (run par2 sp2 [Exec, Exec] run_join_cancelled) =
     Some (PublishOrig, [Some (Clone (Item 0) 0), None], [])"
    unfolding rp by (simp add: run_join_cancelled_state(4,5))
  from q(1) l a b c d run_joining_state(1) run_join_cancelled_state(1,2) show ?thesis by blast
qed

text \<open>
  C7. If the context is cancelled while the executor stands at the select that publishes
  clone \<open>i\<close> (counted from 0), the cancellation branch can be taken and the executor returns
  at once. Whatever happens afterwards, it has dispatched exactly the \<open>i\<close> runners started
  before, has received nothing from the completion-signal channel, has sent nothing on
  Output, and has neither announced nor marked the original item.
\<close>

theorem cancel_at_publish_abandons_fan_out:
  assumes "run p sp as (executeTask p c x) = Some s" and "pc s = Dispatch i" and "ctx_done s"
    and "run p sp bs (s\<lparr>pc := Returned Abandoned\<rparr>) = Some t"
  shows "step p sp ExecDone s = Some (s\<lparr>pc := Returned Abandoned\<rparr>) \<and>
         pc t = Returned Abandoned \<and>
         length (runners s) = i \<and> length (runners t) = i \<and> i < length (tasks p) \<and>
         map snd (by_actor Executor (trace t)) = map (\<lambda>k. NewData (Clone x k)) [0..<i] \<and>
         received (trace t) = [] \<and> Output_ch (trace t) = [] \<and>
         count_list (ProcessedData_ch (trace t)) x = 0 \<and>
         count_list (marked (trace t)) x = 0 \<and>
         step p sp Exec t = None \<and> step p sp ExecDone t = None"
proof -
  have st: "step p sp ExecDone s = Some (s\<lparr>pc := Returned Abandoned\<rparr>)"
    using assms(2,3) by (simp add: step_def exec_done_def)
  from run_after_ExecDone [OF assms(1) st assms(4)]
  have "run p sp (as @ ExecDone # bs) (executeTask p c x) = Some t" .
  from abandoned_after_cancel [OF assms(1,2) this] st show ?thesis by blast
qed

theorem cancel_at_publish_abandons_fan_out_witness:
  "pc run_before_abandon = Dispatch (Suc 0) \<and>
   ctx_done run_before_abandon \<and>
   step par2 sp2 ExecDone run_before_abandon =
     Some (run_before_abandon\<lparr>pc := Returned Abandoned\<rparr>) \<and>
   pc run_abandoned = Returned Abandoned \<and>
   length (runners run_abandoned) = Suc 0 \<and>
   map snd (by_actor Executor (trace run_abandoned)) = [NewData (Clone (Item 0) 0)] \<and>
   ProcessedData_ch (trace run_abandoned) = [Clone (Item 0) 0] \<and>
   Output_ch (trace run_abandoned) = []"
  using cancel_at_publish_abandons_fan_out
    [OF run_before_abandon_eq run_before_abandon_state run_abandoned_from]
  by (simp add: run_before_abandon_state run_abandoned_state run_abandoned_from(1))

text \<open>
  C8. If the context is cancelled while the executor stands at its last select, after all N
  tasks succeeded, the cancellation branch can be taken: the executor returns without
  sending on Output, and the original item is never published on the
  processed-notification channel nor marked; the channel holds the N announcements of the
  clones only. (On the failure path the original is published: see C2 and C3.)
\<close>

theorem cancel_at_forward_drops_silently:
  assumes "run p sp as (executeTask p c x) = Some s" and "pc s = Forward" and "ctx_done s"
    and "run p sp bs (s\<lparr>pc := Returned ForwardAbandoned\<rparr>) = Some t"
  shows "step p sp ExecDone s = Some (s\<lparr>pc := Returned ForwardAbandoned\<rparr>) \<and>
         pc t = Returned ForwardAbandoned \<and> trace t = trace s \<and>
         length (received (trace t)) = length (tasks p) \<and> None \<notin> set (received (trace t)) \<and>
         Output_ch (trace t) = [] \<and>
         count_list (ProcessedData_ch (trace t)) x = 0 \<and>
         count_list (marked (trace t)) x = 0 \<and>
         length (ProcessedData_ch (trace t)) = length (tasks p)"
proof -
  have st: "step p sp ExecDone s = Some (s\<lparr>pc := Returned ForwardAbandoned\<rparr>)"
    using assms(2,3) by (simp add: step_def exec_done_def)
  from run_after_ExecDone [OF assms(1) st assms(4)]
  have "run p sp (as @ ExecDone # bs) (executeTask p c x) = Some t" .
  from forward_abandoned_after_cancel [OF assms(1,2) this] st show ?thesis by blast
qed

theorem cancel_at_forward_drops_silently_witness:
  "pc run_before_forward = Forward \<and>
   ctx_done run_before_forward \<and>
   pc run_forward_cancelled = Returned ForwardAbandoned \<and>
   None \<notin> set (received (trace run_forward_cancelled)) \<and>
   Output_ch (trace run_forward_cancelled) = [] \<and>
   count_list (ProcessedData_ch (trace run_forward_cancelled)) (Item 0) = 0 \<and>
   count_list (marked (trace run_forward_cancelled)) (Item 0) = 0"
  using cancel_at_forward_drops_silently
    [OF run_before_forward_eq run_before_forward_state run_forward_cancelled_from]
    run_before_forward_state run_forward_cancelled_from(1)
  by blast

text \<open>
  C9. An item of type \<open>Data\<close> popped from the requeue queue and the same item received on the
  input channel are handed to the same \<open>executeTask\<close>, with the same context: the two
  admissions start the same call, and under any further schedule of the fan-out (steps of
  its executor and runners, cancellation) the calls of the two loops, and so what is
  forwarded and what is dropped, stay the same.
\<close>

theorem requeue_parity:
  assumes "loop_view l1 = loop_view l2" and "at_select l1"
    and "Input l1 = x # ins" and "DataQueue l2 = QData x # q"
    and "\<forall>a \<in> set acts. \<not> admits a"
  shows "Run_step p sp SelectInput l1 =
           Some (l1\<lparr>Input := ins, calls := calls l1 @ [executeTask p (cancelled l1) x]\<rparr>) \<and>
         Run_step p sp SelectSignal l2 =
           Some (l2\<lparr>DataQueue := q, calls := calls l1 @ [executeTask p (cancelled l1) x]\<rparr>) \<and>
         map_option loop_view (Run p sp (SelectInput # acts) l1) =
         map_option loop_view (Run p sp (SelectSignal # acts) l2)"
proof -
  from at_select_view [OF assms(1)] assms(2) have s2: "at_select l2" by simp
  from assms(1) have e: "calls l2 = calls l1" "cancelled l2 = cancelled l1"
    by (simp_all add: loop_view_def)
  have a: "Run_step p sp SelectInput l1 =
      Some (l1\<lparr>Input := ins, calls := calls l1 @ [executeTask p (cancelled l1) x]\<rparr>)"
    using assms(2,3) by (simp add: Run_step_def)
  have b: "Run_step p sp SelectSignal l2 =
      Some (l2\<lparr>DataQueue := q, calls := calls l1 @ [executeTask p (cancelled l1) x]\<rparr>)"
    using s2 assms(4) e by (simp add: Run_step_def)
  have v: "loop_view (l1\<lparr>Input := ins, calls := calls l1 @ [executeTask p (cancelled l1) x]\<rparr>) =
      loop_view (l2\<lparr>DataQueue := q, calls := calls l1 @ [executeTask p (cancelled l1) x]\<rparr>)"
    using assms(1) by (simp add: loop_view_def)
  from a b Run_view [OF v assms(5), of p sp] show ?thesis by simp
qed

theorem requeue_parity_witness:
  "map_option (\<lambda>l. map (\<lambda>s. (pc s, Output_ch (trace s))) (calls l))
     (Run par1 sp2 (SelectInput # map (Inner 0) sched_forwarded) loop_input) =
     Some [(Returned Forwarded, [Item 0])] \<and>
   map_option loop_view (Run par1 sp2 (SelectSignal # map (Inner 0) sched_forwarded) loop_requeue) =
   map_option loop_view (Run par1 sp2 (SelectInput # map (Inner 0) sched_forwarded) loop_input)"
proof -
  have v: "loop_view loop_input = loop_view loop_requeue"
    by (simp add: loop_view_def loop_input_def loop_requeue_def)
  have s: "at_select loop_input" by (simp add: at_select_def loop_input_def)
  have i: "Input loop_input = Item 0 # []" by (simp add: loop_input_def)
  have q: "DataQueue loop_requeue = QData (Item 0) # []" by (simp add: loop_requeue_def)
  have n: "\<forall>a \<in> set (map (Inner 0) sched_forwarded). \<not> admits a" by auto
  have r: "map_option (\<lambda>l. map (\<lambda>s. (pc s, Output_ch (trace s))) (calls l))
     (Run par1 sp2 (SelectInput # map (Inner 0) sched_forwarded) loop_input) =
     Some [(Returned Forwarded, [Item 0])]"
    by (simp only: loop_input_run) (simp add: run_forwarded_state obs_Cons)
  from requeue_parity [OF v s i q n, of par1 sp2]
  have "map_option loop_view (Run par1 sp2 (SelectInput # map (Inner 0) sched_forwarded) loop_input) =
      map_option loop_view (Run par1 sp2 (SelectSignal # map (Inner 0) sched_forwarded) loop_requeue)"
    by blast
  with r show ?thesis by metis
qed

end
